theory Spec2Isabelle
  imports Complex_Main "HOL-Library.Word"
begin

unbundle bit_operations_syntax

section \<open>Machine integers and exceptions\<close>

text \<open>
  \<open>size_t\<close> and \<open>unsigned long\<close> are 64-bit unsigned integers, \<open>int\<close> is a 32-bit
  signed integer. ONV representations, addresses and vertex weights are 64-bit words,
  because the code relies on their bit operations and on arithmetic modulo \<open>2 ^ 64\<close>.
  Orbital counts, electron counts and loop counters stay far below \<open>2 ^ 64\<close> and are
  natural numbers; the single place where the code subtracts two of them
  (\<open>K - N\<close> in the constructor of the Fock space) has its wrap-around written out.
\<close>

type_synonym size_t = "64 word"

text \<open>
  The exceptions of the C++ standard library that the code throws. In the standard
  library \<open>std::invalid_argument\<close> and \<open>std::domain_error\<close> derive from
  \<open>std::logic_error\<close>, and \<open>std::overflow_error\<close> derives from \<open>std::runtime_error\<close>.
\<close>

datatype exception = logic_error | invalid_argument | domain_error | runtime_error | overflow_error

fun is_logic_error :: "exception \<Rightarrow> bool" where
  "is_logic_error logic_error = True"
| "is_logic_error invalid_argument = True"
| "is_logic_error domain_error = True"
| "is_logic_error runtime_error = False"
| "is_logic_error overflow_error = False"

fun is_runtime_error :: "exception \<Rightarrow> bool" where
  "is_runtime_error runtime_error = True"
| "is_runtime_error overflow_error = True"
| "is_runtime_error e = False"

text \<open>
  \<open>__builtin_ctzl\<close>: the number of trailing zero bits. The builtin is undefined at 0;
  the model returns 0 there.
\<close>

function ctz_nat :: "nat \<Rightarrow> nat" where
  "ctz_nat n = (if n = 0 \<or> odd n then 0 else Suc (ctz_nat (n div 2)))"
  by pat_completeness auto
termination
  by (relation "measure (\<lambda>n. n)") auto

declare ctz_nat.simps [simp del]

definition builtin_ctzl :: "size_t \<Rightarrow> nat" where
  "builtin_ctzl x = ctz_nat (unat x)"

section \<open>The Fock space and its addressing scheme\<close>

subsection \<open>The dimension\<close>

text \<open>
  \<open>FockSpace::calculateDimension\<close> computes the binomial coefficient in double
  precision and converts it to \<open>size_t\<close>. A finite double is a pair of a mantissa and
  an exponent: \<open>Double m e\<close> stands for \<open>m * 2 ^ e\<close>, and it is a value of the
  format when the mantissa fits 53 bits.
\<close>

datatype double = Double int int

fun is_binary64 :: "double \<Rightarrow> bool" where
  "is_binary64 (Double m e) = (\<bar>m\<bar> < 2 ^ 53 \<and> - 1074 \<le> e \<and> e \<le> 971)"

text \<open>Rounding towards zero, the rounding \<open>boost::numeric::converter\<close> uses.\<close>

fun trunc_double :: "double \<Rightarrow> int" where
  "trunc_double (Double m e) =
     (if 0 \<le> e then m * 2 ^ nat e else sgn m * (\<bar>m\<bar> div 2 ^ nat (- e)))"

text \<open>
  \<open>boost::numeric::converter<size_t, double>::convert\<close>: the truncated value, or
  \<open>bad_numeric_cast\<close> (here \<open>None\<close>) when it is out of the range of \<open>size_t\<close>.
\<close>

definition convert :: "double \<Rightarrow> nat option" where
  "convert d = (let t = trunc_double d in if t < 0 \<or> 2 ^ 64 \<le> t then None else Some (nat t))"

text \<open>
  The nearest double of a natural number (ties to even), for the library function
  below.
\<close>

function bit_length :: "nat \<Rightarrow> nat" where
  "bit_length n = (if n = 0 then 0 else Suc (bit_length (n div 2)))"
  by pat_completeness auto
termination
  by (relation "measure (\<lambda>n. n)") auto

declare bit_length.simps [simp del]

definition double_of_nat :: "nat \<Rightarrow> double" where
  "double_of_nat n =
     (if n < 2 ^ 53 then Double (int n) 0
      else let e = bit_length n - 53;
               q = n div 2 ^ e;
               r = n mod 2 ^ e;
               h = 2 ^ (e - 1);
               q' = (if r < h then q else if h < r then q + 1 else if even q then q else q + 1)
           in if q' = 2 ^ 53 then Double (2 ^ 52) (int e + 1) else Double (int q') (int e))"

text \<open>
  \<open>boost::math::binomial_coefficient<double>\<close> is a function of an external library.
  Modelled from its documentation: a domain error (thrown before the \<open>try\<close> block of
  \<open>calculateDimension\<close> is entered) when \<open>k > n\<close>, and otherwise the binomial
  coefficient as a double.
\<close>

definition binomial_coefficient :: "nat \<Rightarrow> nat \<Rightarrow> exception + double" where
  "binomial_coefficient n k = (if k > n then Inl domain_error else Inr (double_of_nat (n choose k)))"

text \<open>
  \<open>FockSpace::calculateDimension\<close>, for any library function \<open>B\<close> in the place of
  \<open>boost::math::binomial_coefficient<double>\<close>. The arguments are cast to
  \<open>unsigned\<close> (32 bits) first.
\<close>

definition calculateDimension_with ::
  "(nat \<Rightarrow> nat \<Rightarrow> exception + double) \<Rightarrow> nat \<Rightarrow> nat \<Rightarrow> exception + nat" where
  "calculateDimension_with B K N =
     (case B (K mod 2 ^ 32) (N mod 2 ^ 32) of
        Inl e \<Rightarrow> Inl e
      | Inr dim_double \<Rightarrow>
          (case convert dim_double of
             None \<Rightarrow> Inl overflow_error
           | Some d \<Rightarrow> Inr d))"

definition calculateDimension :: "nat \<Rightarrow> nat \<Rightarrow> exception + nat" where
  "calculateDimension K N = calculateDimension_with binomial_coefficient K N"

subsection \<open>The vertex weights\<close>

record FockSpace =
  K :: nat
  dim :: nat
  N :: nat
  vertex_weights :: "size_t list list"

text \<open>
  \<open>std::vector::operator[]\<close> is not range checked: a read out of range is undefined
  behaviour in the source, and an unspecified value here.
\<close>

definition get_vertex_weights :: "FockSpace \<Rightarrow> nat \<Rightarrow> nat \<Rightarrow> size_t" where
  "get_vertex_weights fs p m = vertex_weights fs ! p ! m"

definition set_weight :: "size_t list list \<Rightarrow> nat \<Rightarrow> nat \<Rightarrow> size_t \<Rightarrow> size_t list list" where
  "set_weight W p m v = W[p := (W ! p)[m := v]]"

text \<open>\<open>a - b + c\<close> computed in \<open>size_t\<close>.\<close>

definition size_t_sub_add :: "nat \<Rightarrow> nat \<Rightarrow> nat \<Rightarrow> nat" where
  "size_t_sub_add a b c = nat ((int a - int b + int c) mod 2 ^ 64)"

text \<open>The first loop of the constructor: the first \<open>K - N + 1\<close> weights of column 0 are 1.\<close>

definition first_column :: "nat \<Rightarrow> nat \<Rightarrow> size_t list list \<Rightarrow> size_t list list" where
  "first_column k n W = fold (\<lambda>p W. set_weight W p 0 1) [0..<size_t_sub_add k n 1] W"

text \<open>The inner loop of the recurrence, for one column \<open>m\<close>.\<close>

definition recurrence_column :: "nat \<Rightarrow> nat \<Rightarrow> nat \<Rightarrow> size_t list list \<Rightarrow> size_t list list" where
  "recurrence_column k n m W =
     fold (\<lambda>p W. set_weight W p m (W ! (p - 1) ! m + W ! (p - 1) ! (m - 1)))
       [m..<size_t_sub_add k n m + 1] W"

definition make_vertex_weights :: "nat \<Rightarrow> nat \<Rightarrow> size_t list list" where
  "make_vertex_weights k n =
     fold (recurrence_column k n) [1..<n + 1]
       (first_column k n (replicate (k + 1) (replicate (n + 1) 0)))"

text \<open>The constructor \<open>FockSpace::FockSpace(K, N)\<close>.\<close>

definition FockSpace_ctor :: "nat \<Rightarrow> nat \<Rightarrow> exception + FockSpace" where
  "FockSpace_ctor k n =
     (case calculateDimension k n of
        Inl e \<Rightarrow> Inl e
      | Inr d \<Rightarrow> Inr \<lparr>K = k, dim = d, N = n, vertex_weights = make_vertex_weights k n\<rparr>)"

subsection \<open>Addresses and representations\<close>

text \<open>\<open>FockSpace::ulongNextPermutation\<close>.\<close>

definition ulongNextPermutation :: "size_t \<Rightarrow> size_t" where
  "ulongNextPermutation rep =
     (let t = rep OR (rep - 1)
      in (t + 1) OR drop_bit (builtin_ctzl rep + 1) (((NOT t) AND (t + 1)) - 1))"

text \<open>
  \<open>FockSpace::getAddress\<close>: the loop removes the least significant set bit of
  \<open>unsigned_onv\<close> in each round.
\<close>

lemma clear_lowest_bit_less:
  fixes x :: size_t
  assumes "x \<noteq> 0"
  shows "unat (x XOR (x AND - x)) < unat x"
proof -
  have eq: "x XOR (x AND - x) = x AND (x - 1)"
    by (rule bit_word_eqI) (auto simp: bit_simps)
  have "x AND (x - 1) \<le> x - 1"
    by (rule word_and_le1)
  moreover have "x - 1 < x"
    using assms by (simp add: word_less_nat_alt unat_minus_one unat_gt_0)
  ultimately show ?thesis
    unfolding eq by (simp add: word_less_nat_alt word_le_nat_alt)
qed

function getAddress_loop :: "FockSpace \<Rightarrow> size_t \<Rightarrow> size_t \<Rightarrow> nat \<Rightarrow> size_t" where
  "getAddress_loop fs unsigned_onv address electron_count =
     (if unsigned_onv = 0 then address
      else getAddress_loop fs (unsigned_onv XOR (unsigned_onv AND - unsigned_onv))
             (address + get_vertex_weights fs (builtin_ctzl unsigned_onv) (electron_count + 1))
             (electron_count + 1))"
  by pat_completeness auto
termination
  by (relation "measure (\<lambda>(fs, unsigned_onv, address, electron_count). unat unsigned_onv)")
    (auto simp: clear_lowest_bit_less)

declare getAddress_loop.simps [simp del]

definition getAddress :: "FockSpace \<Rightarrow> size_t \<Rightarrow> size_t" where
  "getAddress fs unsigned_onv = getAddress_loop fs unsigned_onv 0 0"

text \<open>
  The expression \<open>(1) << (p - 1)\<close> of \<open>FockSpace::calculateRepresentation\<close>. The
  literal \<open>1\<close> is an \<open>int\<close>, so the shift is a 32-bit shift, and its result is
  converted to \<open>size_t\<close> (sign extended) by the \<open>|=\<close> that uses it. A shift by 32
  or more is undefined behaviour in the source, and an unspecified value here.
\<close>

definition int_one_shifted :: "nat \<Rightarrow> size_t" where
  "int_one_shifted s = (if s < 32 then scast (push_bit s (1 :: 32 word)) else undefined)"

text \<open>
  \<open>FockSpace::calculateRepresentation\<close>. The loop runs \<open>p\<close> from \<open>K\<close> down to 1; the
  model recurses on \<open>p = Suc p'\<close>, so \<open>p'\<close> is the \<open>p - 1\<close> of the source.
\<close>

fun calculateRepresentation_loop :: "FockSpace \<Rightarrow> nat \<Rightarrow> size_t \<Rightarrow> size_t \<Rightarrow> nat \<Rightarrow> size_t" where
  "calculateRepresentation_loop fs 0 address rep m = rep"
| "calculateRepresentation_loop fs (Suc p') address rep m =
     (if get_vertex_weights fs p' m \<le> address
      then (if m - 1 = 0 then rep OR int_one_shifted p'
            else calculateRepresentation_loop fs p' (address - get_vertex_weights fs p' m)
                   (rep OR int_one_shifted p') (m - 1))
      else calculateRepresentation_loop fs p' address rep m)"

definition calculateRepresentation :: "FockSpace \<Rightarrow> size_t \<Rightarrow> size_t" where
  "calculateRepresentation fs address =
     (if N fs \<noteq> 0 then calculateRepresentation_loop fs (K fs) address 0 (N fs) else 0)"


section \<open>Occupation number vectors and the selected Fock space\<close>

record ONV =
  onv_K :: nat
  onv_N :: nat
  unsigned_representation :: size_t
  occupation_indices :: "nat list"

text \<open>
  Modelled from the spec: \<open>ONV::updateOccupationIndices\<close> (its source file is not
  part of the repository's files) recomputes the ordered list of the occupied orbitals
  from the bit pattern, in ascending order.
\<close>

definition updateOccupationIndices :: "size_t \<Rightarrow> nat list" where
  "updateOccupationIndices rep = filter (bit rep) [0..<64]"

text \<open>
  Modelled from the spec: the constructor \<open>ONV(K, N, unsigned_representation)\<close> stores
  its arguments and derives the occupation indices from the representation.
\<close>

definition ONV_ctor :: "nat \<Rightarrow> nat \<Rightarrow> size_t \<Rightarrow> ONV" where
  "ONV_ctor k n rep =
     \<lparr>onv_K = k, onv_N = n, unsigned_representation = rep,
      occupation_indices = updateOccupationIndices rep\<rparr>"

definition get_occupation_index :: "ONV \<Rightarrow> nat \<Rightarrow> nat" where
  "get_occupation_index onv e = occupation_indices onv ! e"

record Configuration =
  onv_alpha :: ONV
  onv_beta :: ONV

record SelectedFockSpace =
  sfs_K :: nat
  sfs_dim :: nat
  N_alpha :: nat
  N_beta :: nat
  configurations :: "Configuration list"

text \<open>
  \<open>boost::dynamic_bitset<>\<close> (external library) built from a string: the constructor
  requires every character to be 0 or 1, and only asserts it (it throws nothing);
  \<open>size()\<close> is the length of the string, \<open>count()\<close> the number of ones, and
  \<open>to_ulong()\<close> reads the string with its last character as bit 0 and throws
  \<open>std::overflow_error\<close> when a bit beyond the 64 bits of \<open>unsigned long\<close> is set.
\<close>

definition bitset_valid :: "string \<Rightarrow> bool" where
  "bitset_valid s = list_all (\<lambda>c. c = CHR ''0'' \<or> c = CHR ''1'') s"

definition bitset_count :: "string \<Rightarrow> nat" where
  "bitset_count s = length (filter (\<lambda>c. c = CHR ''1'') s)"

definition bitset_to_ulong :: "string \<Rightarrow> exception + size_t" where
  "bitset_to_ulong s =
     (if CHR ''1'' \<in> set (take (length s - 64) s) then Inl overflow_error
      else Inr (fold (\<lambda>c v. 2 * v + (if c = CHR ''1'' then 1 else 0)) s 0))"

text \<open>
  \<open>SelectedFockSpace::makeConfiguration\<close>. A string with a character other than 0 and 1
  breaks the precondition of the bitset's constructor (a failed assertion, or a bitset
  that the library does not specify): the result is unspecified here.
\<close>

definition makeConfiguration :: "SelectedFockSpace \<Rightarrow> string \<Rightarrow> string \<Rightarrow> exception + Configuration" where
  "makeConfiguration fs onv1 onv2 =
     (if \<not> bitset_valid onv1 \<or> \<not> bitset_valid onv2 then undefined
      else if length onv1 \<noteq> sfs_K fs \<or> length onv2 \<noteq> sfs_K fs then Inl invalid_argument
      else if bitset_count onv1 \<noteq> N_alpha fs \<or> bitset_count onv2 \<noteq> N_beta fs
        then Inl invalid_argument
      else (case bitset_to_ulong onv1 of
              Inl e \<Rightarrow> Inl e
            | Inr alpha_s \<Rightarrow>
                (case bitset_to_ulong onv2 of
                   Inl e \<Rightarrow> Inl e
                 | Inr beta_s \<Rightarrow>
                     Inr \<lparr>onv_alpha = ONV_ctor (sfs_K fs) (N_alpha fs) alpha_s,
                          onv_beta = ONV_ctor (sfs_K fs) (N_beta fs) beta_s\<rparr>)))"

text \<open>The constructor \<open>SelectedFockSpace(K, N_alpha, N_beta)\<close>: dimension 0, no configuration.\<close>

definition SelectedFockSpace_ctor :: "nat \<Rightarrow> nat \<Rightarrow> nat \<Rightarrow> SelectedFockSpace" where
  "SelectedFockSpace_ctor k na nb =
     \<lparr>sfs_K = k, sfs_dim = 0, N_alpha = na, N_beta = nb, configurations = []\<rparr>"

text \<open>
  \<open>SelectedFockSpace::addConfiguration\<close>. The method changes the object and may
  throw: the model returns the outcome together with the object as the call leaves it.
  The dimension is incremented before \<open>makeConfiguration\<close> is called.
\<close>

definition addConfiguration ::
  "SelectedFockSpace \<Rightarrow> string \<Rightarrow> string \<Rightarrow> (exception + unit) \<times> SelectedFockSpace" where
  "addConfiguration fs onv1 onv2 =
     (let fs1 = fs\<lparr>sfs_dim := sfs_dim fs + 1\<rparr>
      in case makeConfiguration fs1 onv1 onv2 of
           Inl e \<Rightarrow> (Inl e, fs1)
         | Inr configuration \<Rightarrow>
             (Inr (), fs1\<lparr>configurations := configurations fs1 @ [configuration]\<rparr>))"

section \<open>Vectors and matrices\<close>

text \<open>
  The coefficients are \<open>double\<close>s in the source. Outside \<open>calculateDimension\<close>, where
  the very format of a double decides what the code returns, the arithmetic of the
  coefficients is taken as exact: a coefficient is a real number. A vector is the list
  of its coefficients; a matrix has its two sizes and a coefficient for each pair of
  indices. The containers of the source do not check their indices: an access out of
  range is undefined behaviour there, and reads an unspecified coefficient here.
\<close>

type_synonym VectorX = "real list"

record MatrixX =
  rows :: nat
  cols :: nat
  coeff :: "nat \<Rightarrow> nat \<Rightarrow> real"

definition Zero_matrix :: "nat \<Rightarrow> nat \<Rightarrow> MatrixX" where
  "Zero_matrix r c = \<lparr>rows = r, cols = c, coeff = (\<lambda>i j. 0)\<rparr>"

definition col :: "MatrixX \<Rightarrow> nat \<Rightarrow> VectorX" where
  "col M j = map (\<lambda>i. coeff M i j) [0..<rows M]"

definition set_col :: "MatrixX \<Rightarrow> nat \<Rightarrow> VectorX \<Rightarrow> MatrixX" where
  "set_col M j v = M\<lparr>coeff := (\<lambda>i c. if c = j \<and> i < rows M then v ! i else coeff M i c)\<rparr>"

definition set_row :: "MatrixX \<Rightarrow> nat \<Rightarrow> VectorX \<Rightarrow> MatrixX" where
  "set_row M i v = M\<lparr>coeff := (\<lambda>r j. if r = i \<and> j < cols M then v ! j else coeff M r j)\<rparr>"

definition add_to_coeff :: "MatrixX \<Rightarrow> nat \<Rightarrow> nat \<Rightarrow> real \<Rightarrow> MatrixX" where
  "add_to_coeff M i j v = M\<lparr>coeff := (\<lambda>r c. if r = i \<and> c = j then coeff M i j + v else coeff M r c)\<rparr>"

definition mat_vec :: "MatrixX \<Rightarrow> VectorX \<Rightarrow> VectorX" where
  "mat_vec M x = map (\<lambda>i. \<Sum>k<cols M. coeff M i k * x ! k) [0..<rows M]"

definition transpose_mat :: "MatrixX \<Rightarrow> MatrixX" where
  "transpose_mat M = \<lparr>rows = cols M, cols = rows M, coeff = (\<lambda>i j. coeff M j i)\<rparr>"

definition mat_mul :: "MatrixX \<Rightarrow> MatrixX \<Rightarrow> MatrixX" where
  "mat_mul A B = \<lparr>rows = rows A, cols = cols B, coeff = (\<lambda>i j. \<Sum>k<cols A. coeff A i k * coeff B k j)\<rparr>"

definition topLeftCorner :: "MatrixX \<Rightarrow> nat \<Rightarrow> nat \<Rightarrow> MatrixX" where
  "topLeftCorner M r c = M\<lparr>rows := r, cols := c\<rparr>"

definition conservativeResize :: "MatrixX \<Rightarrow> nat \<Rightarrow> nat \<Rightarrow> MatrixX" where
  "conservativeResize M r c = M\<lparr>rows := r, cols := c\<rparr>"

definition vec_sub :: "VectorX \<Rightarrow> VectorX \<Rightarrow> VectorX" where
  "vec_sub x y = map2 (-) x y"

definition vec_scale :: "real \<Rightarrow> VectorX \<Rightarrow> VectorX" where
  "vec_scale a x = map ((*) a) x"

definition squaredNorm :: "VectorX \<Rightarrow> real" where
  "squaredNorm x = (\<Sum>a\<leftarrow>x. a * a)"

definition norm_vec :: "VectorX \<Rightarrow> real" where
  "norm_vec x = sqrt (squaredNorm x)"

text \<open>
  \<open>normalize()\<close> of the linear algebra library divides a vector by its norm, and leaves
  a vector of norm 0 unchanged.
\<close>

definition normalize :: "VectorX \<Rightarrow> VectorX" where
  "normalize x = (if 0 < squaredNorm x then map (\<lambda>a. a / sqrt (squaredNorm x)) x else x)"

section \<open>The Davidson solver\<close>

record Eigenpair =
  eigenvalue :: real
  eigenvector :: VectorX

record DavidsonSolver =
  ds_dim :: nat
  number_of_requested_eigenpairs :: nat
  is_solved :: bool
  eigenpairs :: "Eigenpair list"
  number_of_iterations :: nat
  matrixVectorProduct :: "VectorX \<Rightarrow> VectorX"
  diagonal :: VectorX
  V_0 :: MatrixX
  convergence_threshold :: real
  correction_threshold :: real
  maximum_subspace_dimension :: nat
  collapsed_subspace_dimension :: nat
  maximum_number_of_iterations :: nat

text \<open>
  The constructor of \<open>DavidsonSolver\<close>. Modelled from the spec: the constructor of the
  base class \<open>BaseEigenproblemSolver\<close> (not part of the repository's files) stores the
  dimension and the number of requested eigenpairs, of a solver that is not solved,
  has no eigenpair and has made no iteration.
\<close>

definition DavidsonSolver_ctor ::
  "(VectorX \<Rightarrow> VectorX) \<Rightarrow> VectorX \<Rightarrow> MatrixX \<Rightarrow> nat \<Rightarrow> real \<Rightarrow> real \<Rightarrow> nat \<Rightarrow> nat \<Rightarrow> nat
     \<Rightarrow> exception + DavidsonSolver" where
  "DavidsonSolver_ctor mvp diag V0 requested conv_thr corr_thr max_sub coll_sub max_it =
     (if cols V0 < requested then Inl invalid_argument
      else if coll_sub < requested then Inl invalid_argument
      else if coll_sub \<ge> max_sub then Inl invalid_argument
      else Inr \<lparr>ds_dim = rows V0, number_of_requested_eigenpairs = requested,
                is_solved = False, eigenpairs = [], number_of_iterations = 0,
                matrixVectorProduct = mvp, diagonal = diag, V_0 = V0,
                convergence_threshold = conv_thr, correction_threshold = corr_thr,
                maximum_subspace_dimension = max_sub, collapsed_subspace_dimension = coll_sub,
                maximum_number_of_iterations = max_it\<rparr>)"

text \<open>\<open>DavidsonSolver::get_number_of_iterations\<close>.\<close>

definition get_number_of_iterations :: "DavidsonSolver \<Rightarrow> exception + nat" where
  "get_number_of_iterations s =
     (if is_solved s then Inr (number_of_iterations s) else Inl invalid_argument)"

text \<open>
  The residual equations of \<open>DavidsonSolver::solve\<close>: the correction vector of a
  residual vector \<open>R\<close> for the Ritz value \<open>lambda\<close>, before it is normalized. The
  source selects, coefficient by coefficient, between \<open>R / |diagonal - lambda|\<close> and
  \<open>R / correction_threshold\<close>: \<open>correction_divisor\<close> is the divisor it selects.

  Nothing in the source keeps the divisor from being 0 (the constructor does not check
  the correction threshold): the quotient of the doubles is then an infinity or NaN,
  and \<open>normalize()\<close> turns the column into one that holds a NaN. Such a column is no
  vector of real numbers: the correction vector is \<open>None\<close>.
\<close>

definition correction_divisor :: "VectorX \<Rightarrow> real \<Rightarrow> real \<Rightarrow> nat \<Rightarrow> real" where
  "correction_divisor diag corr_thr lambda j =
     (if \<bar>diag ! j - lambda\<bar> > corr_thr then \<bar>diag ! j - lambda\<bar> else corr_thr)"

definition residual_correction :: "VectorX \<Rightarrow> real \<Rightarrow> real \<Rightarrow> VectorX \<Rightarrow> VectorX option" where
  "residual_correction diag corr_thr lambda R =
     (if \<forall>j<length R. correction_divisor diag corr_thr lambda j \<noteq> 0
      then Some (map (\<lambda>j. R ! j / correction_divisor diag corr_thr lambda j) [0..<length R])
      else None)"

text \<open>The matrices \<open>V\<close>, \<open>VA\<close> and \<open>S\<close> of the subspace, local to \<open>solve\<close>.\<close>

record subspace =
  sub_V :: MatrixX
  sub_VA :: MatrixX
  sub_S :: MatrixX

text \<open>
  The decomposition of the subspace matrix by \<open>Eigen::SelfAdjointEigenSolver\<close>
  (external library) is a parameter of the model: a function from the matrix to its
  eigenvalues and the matrix of its eigenvectors.
\<close>

type_synonym eigensolver = "MatrixX \<Rightarrow> VectorX \<times> MatrixX"

definition append_col :: "MatrixX \<Rightarrow> VectorX \<Rightarrow> MatrixX" where
  "append_col M v = set_col (conservativeResize M (rows M) (cols M + 1)) (cols M) v"

text \<open>
  One round of the loop over the correction vectors: the projection on the orthogonal
  complement of \<open>V\<close>, the collapse of the subspace when it is full, and the new
  column of \<open>V\<close> and of \<open>VA\<close>. The \<open>assert\<close> on the orthonormality of \<open>V\<close> is
  compiled out of a release build and is left out.
\<close>

definition add_correction :: "DavidsonSolver \<Rightarrow> MatrixX \<Rightarrow> subspace \<Rightarrow> VectorX \<Rightarrow> subspace" where
  "add_correction s eigenvectors sub delta =
     (let V = sub_V sub;
          v0 = vec_sub delta (mat_vec V (mat_vec (transpose_mat V) delta));
          nrm = norm_vec v0;
          v = normalize v0
      in if nrm > 1 / 1000 then
           (let sub1 =
              (if cols V = maximum_subspace_dimension s then
                 (let lowest_eigenvectors =
                        topLeftCorner eigenvectors (cols (sub_S sub)) (collapsed_subspace_dimension s);
                      V1 = mat_mul V lowest_eigenvectors;
                      VA1 = mat_mul (sub_VA sub) lowest_eigenvectors
                  in \<lparr>sub_V = V1, sub_VA = VA1, sub_S = mat_mul (transpose_mat V1) VA1\<rparr>)
               else sub)
            in sub1\<lparr>sub_V := append_col (sub_V sub1) v,
                    sub_VA := append_col (sub_VA sub1) (matrixVectorProduct s v)\<rparr>)
         else sub)"

text \<open>
  The new rows and columns of the subspace matrix. The loop starts at
  \<open>previous_subspace_dimension - 1\<close>, computed in \<open>size_t\<close>: it makes no round when
  the previous dimension is 0.
\<close>

definition update_subspace_matrix :: "subspace \<Rightarrow> subspace" where
  "update_subspace_matrix sub =
     (let previous_subspace_dimension = cols (sub_S sub);
          current_subspace_dimension = cols (sub_V sub);
          dimension_difference =
            nat ((int current_subspace_dimension - int previous_subspace_dimension) mod 2 ^ 64);
          S1 = conservativeResize (sub_S sub)
                 (rows (sub_S sub) + dimension_difference) (cols (sub_S sub) + dimension_difference);
          js = (if previous_subspace_dimension = 0 then []
                else [previous_subspace_dimension - 1..<current_subspace_dimension])
      in sub\<lparr>sub_S :=
           fold (\<lambda>j S. let s_j = mat_vec (transpose_mat (sub_V sub)) (col (sub_VA sub) j)
                        in set_row (set_col S j s_j) j s_j) js S1\<rparr>)"

datatype davidson_round =
  Converged DavidsonSolver
| Thrown exception DavidsonSolver
| Continue DavidsonSolver subspace

text \<open>
  One round of the \<open>while\<close> loop of \<open>DavidsonSolver::solve\<close>. A correction column
  that holds a NaN gives a projection \<open>v\<close> of NaNs, whose norm is NaN: the comparison
  \<open>norm > 1.0e-03\<close> is false, and the column is not added to the subspace.
\<close>

definition davidson_round :: "eigensolver \<Rightarrow> DavidsonSolver \<Rightarrow> subspace \<Rightarrow> davidson_round" where
  "davidson_round eig s sub =
     (let r = number_of_requested_eigenpairs s;
          Lambda = take r (fst (eig (sub_S sub)));
          Z = topLeftCorner (snd (eig (sub_S sub))) (cols (sub_S sub)) r;
          X = mat_mul (sub_V sub) Z;
          R = map (\<lambda>i. vec_sub (mat_vec (sub_VA sub) (col Z i)) (vec_scale (Lambda ! i) (col X i)))
                [0..<r];
          Delta = map (\<lambda>i. map_option normalize
                    (residual_correction (diagonal s) (correction_threshold s) (Lambda ! i) (R ! i)))
                [0..<r]
      in if \<not> (\<exists>i<r. norm_vec (R ! i) > convergence_threshold s) then
           Converged (s\<lparr>is_solved := True,
                        eigenpairs := eigenpairs s
                          @ map (\<lambda>i. \<lparr>eigenvalue = Lambda ! i, eigenvector = col X i\<rparr>) [0..<r]\<rparr>)
         else
           (let s1 = s\<lparr>number_of_iterations := number_of_iterations s + 1\<rparr>
            in if number_of_iterations s1 \<ge> maximum_number_of_iterations s1 then
                 Thrown runtime_error s1
               else Continue s1
                      (update_subspace_matrix
                         (fold (\<lambda>delta sub.
                                  case delta of
                                    None \<Rightarrow> sub
                                  | Some delta \<Rightarrow> add_correction s1 (snd (eig (sub_S sub))) sub delta)
                            Delta sub))))"

lemma davidson_round_Continue:
  assumes "davidson_round eig s sub = Continue s' sub'"
  shows "number_of_iterations s' = number_of_iterations s + 1"
    and "maximum_number_of_iterations s' = maximum_number_of_iterations s"
    and "number_of_iterations s' < maximum_number_of_iterations s'"
    and "is_solved s' = is_solved s"
  using assms by (auto simp: davidson_round_def Let_def split: if_splits)

lemma davidson_round_measure:
  assumes "davidson_round eig s sub = Continue s' sub'"
  shows "maximum_number_of_iterations s' - number_of_iterations s'
           < maximum_number_of_iterations s - number_of_iterations s"
  using davidson_round_Continue(1-3) [OF assms] by arith

function solve_loop ::
  "eigensolver \<Rightarrow> DavidsonSolver \<Rightarrow> subspace \<Rightarrow> (exception + unit) \<times> DavidsonSolver" where
  "solve_loop eig s sub =
     (if is_solved s then (Inr (), s)
      else (case davidson_round eig s sub of
              Converged s' \<Rightarrow> (Inr (), s')
            | Thrown e s' \<Rightarrow> (Inl e, s')
            | Continue s' sub' \<Rightarrow> solve_loop eig s' sub'))"
  by pat_completeness auto
termination
  by (relation "measure (\<lambda>(eig, s, sub). maximum_number_of_iterations s - number_of_iterations s)")
    (auto simp: davidson_round_measure)

declare solve_loop.simps [simp del]

text \<open>\<open>DavidsonSolver::solve\<close>.\<close>

definition solve :: "eigensolver \<Rightarrow> DavidsonSolver \<Rightarrow> (exception + unit) \<times> DavidsonSolver" where
  "solve eig s =
     (let VA = fold (\<lambda>j VA. set_col VA j (matrixVectorProduct s (col (V_0 s) j)))
                 [0..<cols (V_0 s)] (Zero_matrix (ds_dim s) (cols (V_0 s)));
          V = V_0 s;
          S = mat_mul (transpose_mat V) VA
      in solve_loop eig s \<lparr>sub_V = V, sub_VA = VA, sub_S = S\<rparr>)"

section \<open>Hamiltonian parameters and the frozen core\<close>

record TwoElectronOperator =
  te_dim :: nat
  te_coeff :: "nat \<Rightarrow> nat \<Rightarrow> nat \<Rightarrow> nat \<Rightarrow> real"

record HamiltonianParameters =
  hp_K :: nat
  hp_S :: MatrixX
  hp_h :: MatrixX
  hp_g :: TwoElectronOperator
  hp_T_total :: MatrixX

text \<open>\<open>SquareMatrix::get_dim\<close>.\<close>

definition get_dim :: "MatrixX \<Rightarrow> nat" where
  "get_dim M = cols M"

text \<open>\<open>block(i0, j0, r, c)\<close> of the linear algebra library: the \<open>r\<close> by \<open>c\<close> block at \<open>(i0, j0)\<close>.\<close>

definition block :: "MatrixX \<Rightarrow> nat \<Rightarrow> nat \<Rightarrow> nat \<Rightarrow> nat \<Rightarrow> MatrixX" where
  "block M i0 j0 r c = \<lparr>rows = r, cols = c, coeff = (\<lambda>i j. coeff M (i0 + i) (j0 + j))\<rparr>"

text \<open>
  Modelled from the spec: \<open>TwoElectronOperator::FromBlock(g, X, X, X, X)\<close> (not part of
  the repository's files) is the tensor of the integrals over the active orbitals, those
  from index \<open>X\<close> on.
\<close>

definition FromBlock :: "TwoElectronOperator \<Rightarrow> nat \<Rightarrow> TwoElectronOperator" where
  "FromBlock g x =
     \<lparr>te_dim = size_t_sub_add (te_dim g) x 0,
      te_coeff = (\<lambda>i j k l. te_coeff g (x + i) (x + j) (x + k) (x + l))\<rparr>"

text \<open>
  Modelled from the spec: the constructor of \<open>HamiltonianParameters\<close> (not part of the
  repository's files) stores the integrals; the number of orbitals is their dimension.
\<close>

definition HamiltonianParameters_ctor ::
  "MatrixX \<Rightarrow> MatrixX \<Rightarrow> TwoElectronOperator \<Rightarrow> MatrixX \<Rightarrow> HamiltonianParameters" where
  "HamiltonianParameters_ctor S h g T = \<lparr>hp_K = get_dim h, hp_S = S, hp_h = h, hp_g = g, hp_T_total = T\<rparr>"

text \<open>
  A Hamiltonian builder is an object with three virtual methods; each may throw.
\<close>

record HamiltonianBuilder =
  hb_constructHamiltonian :: "HamiltonianParameters \<Rightarrow> exception + MatrixX"
  hb_matrixVectorProduct :: "HamiltonianParameters \<Rightarrow> VectorX \<Rightarrow> VectorX \<Rightarrow> exception + VectorX"
  hb_calculateDiagonal :: "HamiltonianParameters \<Rightarrow> exception + VectorX"

text \<open>
  A frozen core builder: the wrapped builder, the number \<open>X\<close> of frozen orbitals, and the
  dimension of its Fock space (\<open>get_fock_space()->get_dimension()\<close>).
\<close>

record FrozenCoreCI =
  active_hamiltonian_builder :: HamiltonianBuilder
  fc_X :: nat
  fc_dimension :: nat

text \<open>\<open>FrozenCoreCI::freezeHamiltonianParameters\<close>.\<close>

definition freeze_pair :: "TwoElectronOperator \<Rightarrow> nat \<Rightarrow> nat \<Rightarrow> nat \<Rightarrow> MatrixX \<Rightarrow> MatrixX" where
  "freeze_pair g x i j h =
     (let q = i + x; p = j + x; G = te_coeff g
      in fold (\<lambda>l h.
                 add_to_coeff
                   (add_to_coeff h i j (G q p l l + G l l q p - G q l l p / 2 - G l p q l / 2))
                   j i (G p q l l + G l l p q - G p l l q / 2 - G l q p l / 2))
           [0..<x] h)"

definition freeze_orbital :: "TwoElectronOperator \<Rightarrow> nat \<Rightarrow> nat \<Rightarrow> nat \<Rightarrow> MatrixX \<Rightarrow> MatrixX" where
  "freeze_orbital g x K_active i h =
     (let q = i + x; G = te_coeff g;
          h1 = fold (\<lambda>l h. add_to_coeff h i i (G q q l l + G l l q q - G q l l q / 2 - G l q q l / 2))
                 [0..<x] h
      in fold (freeze_pair g x i) [i + 1..<K_active] h1)"

definition freezeHamiltonianParameters :: "HamiltonianParameters \<Rightarrow> nat \<Rightarrow> HamiltonianParameters" where
  "freezeHamiltonianParameters ham_par x =
     (let k = hp_K ham_par;
          K_active = size_t_sub_add k x 0;
          S = block (hp_S ham_par) x x K_active K_active;
          h = block (hp_h ham_par) x x K_active K_active;
          g = hp_g ham_par;
          h' = fold (freeze_orbital g x K_active) [0..<K_active] h;
          g_new = FromBlock (hp_g ham_par) x;
          T = block (hp_T_total ham_par) x x K_active K_active
      in HamiltonianParameters_ctor S h' g_new T)"

text \<open>
  \<open>FrozenCoreCI::calculateFrozenCoreDiagonal\<close>: the loops that accumulate \<open>value\<close>, and
  the vector \<open>value * Ones(dimension)\<close>.
\<close>

definition frozen_core_value :: "HamiltonianParameters \<Rightarrow> nat \<Rightarrow> real" where
  "frozen_core_value ham_par x =
     (let g = te_coeff (hp_g ham_par); h = coeff (hp_h ham_par)
      in fold (\<lambda>i value.
                 fold (\<lambda>j value. value + (2 * g i i j j + 2 * g j j i i - g j i i j - g i j j i))
                   [i + 1..<x] (value + (2 * h i i + g i i i i)))
           [0..<x] 0)"

definition calculateFrozenCoreDiagonal :: "FrozenCoreCI \<Rightarrow> HamiltonianParameters \<Rightarrow> nat \<Rightarrow> VectorX" where
  "calculateFrozenCoreDiagonal fc ham_par x =
     map (\<lambda>one. frozen_core_value ham_par x * one) (replicate (fc_dimension fc) 1)"

text \<open>\<open>total_hamiltonian += frozen_core_diagonal.asDiagonal()\<close>.\<close>

definition add_asDiagonal :: "MatrixX \<Rightarrow> VectorX \<Rightarrow> MatrixX" where
  "add_asDiagonal M d =
     M\<lparr>coeff := (\<lambda>i j. if i = j \<and> i < length d then coeff M i j + d ! i else coeff M i j)\<rparr>"

text \<open>\<open>FrozenCoreCI::constructHamiltonian\<close>.\<close>

definition FrozenCoreCI_constructHamiltonian ::
  "FrozenCoreCI \<Rightarrow> HamiltonianParameters \<Rightarrow> exception + MatrixX" where
  "FrozenCoreCI_constructHamiltonian fc ham_par =
     (let frozen_ham_par = freezeHamiltonianParameters ham_par (fc_X fc)
      in case hb_constructHamiltonian (active_hamiltonian_builder fc) frozen_ham_par of
           Inl e \<Rightarrow> Inl e
         | Inr total_hamiltonian \<Rightarrow>
             Inr (add_asDiagonal total_hamiltonian
                    (calculateFrozenCoreDiagonal fc ham_par (fc_X fc))))"

section \<open>The DOCI Hamiltonian builder\<close>

text \<open>
  Modelled from the spec: the methods \<open>makeONV\<close> and \<open>setNextONV\<close> of the Fock space
  come from \<open>FockPermutator\<close>, and \<open>ONV::set_representation\<close> from the source file
  of \<open>ONV\<close> (neither is part of the repository's files). \<open>makeONV(address)\<close> is the
  ONV of the representation of the address; \<open>setNextONV(onv)\<close> advances the ONV with
  \<open>ulongNextPermutation\<close>; \<open>set_representation\<close> stores the new representation and
  recomputes the occupation indices.
\<close>

definition makeONV :: "FockSpace \<Rightarrow> size_t \<Rightarrow> ONV" where
  "makeONV fs address = ONV_ctor (K fs) (N fs) (calculateRepresentation fs address)"

definition set_representation :: "ONV \<Rightarrow> size_t \<Rightarrow> ONV" where
  "set_representation onv rep =
     onv\<lparr>unsigned_representation := rep, occupation_indices := updateOccupationIndices rep\<rparr>"

definition setNextONV :: "FockSpace \<Rightarrow> ONV \<Rightarrow> ONV" where
  "setNextONV fs onv =
     set_representation onv (ulongNextPermutation (unsigned_representation onv))"

text \<open>
  \<open>FockSpace::shiftUntilNextUnoccupiedOrbital<T>\<close>, on the triple of the address, the
  orbital index \<open>q\<close> and the electron count \<open>e\<close> that the method updates in place.
\<close>

function shiftUntilNextUnoccupiedOrbital ::
  "nat \<Rightarrow> FockSpace \<Rightarrow> ONV \<Rightarrow> size_t \<times> nat \<times> nat \<Rightarrow> size_t \<times> nat \<times> nat" where
  "shiftUntilNextUnoccupiedOrbital T fs onv (address, q, e) =
     (if e < N fs \<and> q = get_occupation_index onv e
      then shiftUntilNextUnoccupiedOrbital T fs onv
             (address + (get_vertex_weights fs q (e + 1 - T) - get_vertex_weights fs q (e + 1)),
              q + 1, e + 1)
      else (address, q, e))"
  by pat_completeness auto
termination
  by (relation "measure (\<lambda>(T, fs, onv, address, q, e). N fs - e)") auto

declare shiftUntilNextUnoccupiedOrbital.simps [simp del]

lemma shiftUntilNextUnoccupiedOrbital_q:
  "q \<le> fst (snd (shiftUntilNextUnoccupiedOrbital T fs onv (address, q, e)))"
proof (induction T fs onv "(address, q, e)" arbitrary: address q e
    rule: shiftUntilNextUnoccupiedOrbital.induct)
  case (1 T fs onv address q e)
  show ?case
  proof (cases "e < N fs \<and> q = get_occupation_index onv e")
    case True
    have "q + 1 \<le> fst (snd (shiftUntilNextUnoccupiedOrbital T fs onv
        (address + (get_vertex_weights fs q (e + 1 - T) - get_vertex_weights fs q (e + 1)),
         q + 1, e + 1)))"
      by (rule "1.hyps" [OF True])
    moreover have "shiftUntilNextUnoccupiedOrbital T fs onv (address, q, e) =
        shiftUntilNextUnoccupiedOrbital T fs onv
          (address + (get_vertex_weights fs q (e + 1 - T) - get_vertex_weights fs q (e + 1)),
           q + 1, e + 1)"
      using True by (subst shiftUntilNextUnoccupiedOrbital.simps) simp
    ultimately show ?thesis
      by simp
  next
    case False
    then have "shiftUntilNextUnoccupiedOrbital T fs onv (address, q, e) = (address, q, e)"
      by (subst shiftUntilNextUnoccupiedOrbital.simps) auto
    then show ?thesis
      by simp
  qed
qed

record DOCI =
  fock_space :: FockSpace

text \<open>
  The loops over the couplings of one address \<open>I\<close>, which \<open>constructHamiltonian\<close> and
  \<open>matrixVectorProduct\<close> have in common: the \<open>while (q < K)\<close> loop over the orbitals
  \<open>q\<close> of the creation, and the loop over the electrons \<open>e1\<close> of the annihilation.
  What the two methods do with a coupling of the orbitals \<open>p\<close> and \<open>q\<close> with the
  address \<open>J\<close> is the parameter \<open>body\<close>.
\<close>

function creation_loop ::
  "(nat \<Rightarrow> nat \<Rightarrow> 'a \<Rightarrow> 'a) \<Rightarrow> FockSpace \<Rightarrow> ONV \<Rightarrow> nat \<Rightarrow> size_t \<times> nat \<times> nat \<Rightarrow> 'a \<Rightarrow> 'a" where
  "creation_loop body fs onv k (address, q, e2) acc =
     (if q < k
      then creation_loop body fs onv k
             (shiftUntilNextUnoccupiedOrbital 1 fs onv (address, q + 1, e2))
             (body q (unat (address + get_vertex_weights fs q e2)) acc)
      else acc)"
  by pat_completeness auto
termination
proof (relation "measure (\<lambda>(body, fs, onv, k, (address, q, e2), acc). k - q)", goal_cases)
  case 1
  then show ?case by simp
next
  case (2 body fs onv k address q e2 acc)
  obtain address' q' e2' where
    s: "shiftUntilNextUnoccupiedOrbital 1 fs onv (address, q + 1, e2) = (address', q', e2')"
    by (cases "shiftUntilNextUnoccupiedOrbital 1 fs onv (address, q + 1, e2)") auto
  have "q + 1 \<le> q'"
    using shiftUntilNextUnoccupiedOrbital_q [of "q + 1" 1 fs onv address e2] s by simp
  then show ?case
    using 2 s by simp
qed

declare creation_loop.simps [simp del]

definition annihilation_loop ::
  "(nat \<Rightarrow> nat \<Rightarrow> nat \<Rightarrow> 'a \<Rightarrow> 'a) \<Rightarrow> FockSpace \<Rightarrow> ONV \<Rightarrow> nat \<Rightarrow> nat \<Rightarrow> 'a \<Rightarrow> 'a" where
  "annihilation_loop body fs onv k I acc =
     fold (\<lambda>e1 acc.
             let p = get_occupation_index onv e1;
                 address = of_nat I - get_vertex_weights fs p (e1 + 1)
             in creation_loop (body p) fs onv k
                  (shiftUntilNextUnoccupiedOrbital 1 fs onv (address, p + 1, e1 + 1)) acc)
       [0..<N fs] acc"

text \<open>\<open>DOCI::calculateDiagonal\<close>.\<close>

definition diagonal_element :: "HamiltonianParameters \<Rightarrow> FockSpace \<Rightarrow> ONV \<Rightarrow> real" where
  "diagonal_element ham_par fs onv =
     (let h = coeff (hp_h ham_par); g = te_coeff (hp_g ham_par)
      in fold (\<lambda>e1 double_I.
                 let p = get_occupation_index onv e1
                 in fold (\<lambda>e2 double_I.
                            let q = get_occupation_index onv e2
                            in double_I + 2 * (2 * g p p q q - g p q q p))
                      [0..<e1] (double_I + (2 * h p p + g p p p p)))
           [0..<N fs] 0)"

definition DOCI_calculateDiagonal :: "DOCI \<Rightarrow> HamiltonianParameters \<Rightarrow> exception + VectorX" where
  "DOCI_calculateDiagonal doci ham_par =
     (let fs = fock_space doci
      in if get_dim (hp_h ham_par) \<noteq> K fs then Inl invalid_argument
         else Inr (fst (fold (\<lambda>I (diagonal_vector, onv).
                           (diagonal_vector[I := diagonal_vector ! I + diagonal_element ham_par fs onv],
                            if I < dim fs - 1 then setNextONV fs onv else onv))
                     [0..<dim fs] (replicate (dim fs) 0, makeONV fs 0))))"

text \<open>\<open>DOCI::constructHamiltonian\<close>.\<close>

definition DOCI_constructHamiltonian :: "DOCI \<Rightarrow> HamiltonianParameters \<Rightarrow> exception + MatrixX" where
  "DOCI_constructHamiltonian doci ham_par =
     (let fs = fock_space doci; k = get_dim (hp_h ham_par); g = te_coeff (hp_g ham_par)
      in if k \<noteq> K fs then Inl invalid_argument
         else (case DOCI_calculateDiagonal doci ham_par of
                 Inl e \<Rightarrow> Inl e
               | Inr diagonal_vector \<Rightarrow>
                   Inr (fst (fold (\<lambda>I (result_matrix, onv).
                                (annihilation_loop
                                   (\<lambda>p q J result_matrix.
                                      add_to_coeff (add_to_coeff result_matrix I J (g p q p q))
                                        J I (g p q p q))
                                   fs onv k I (add_to_coeff result_matrix I I (diagonal_vector ! I)),
                                 if I < dim fs - 1 then setNextONV fs onv else onv))
                          [0..<dim fs] (Zero_matrix (dim fs) (dim fs), makeONV fs 0)))))"

text \<open>\<open>DOCI::matrixVectorProduct\<close>.\<close>

definition DOCI_matrixVectorProduct ::
  "DOCI \<Rightarrow> HamiltonianParameters \<Rightarrow> VectorX \<Rightarrow> VectorX \<Rightarrow> exception + VectorX" where
  "DOCI_matrixVectorProduct doci ham_par x diagonal_vector =
     (let fs = fock_space doci; k = get_dim (hp_h ham_par); g = te_coeff (hp_g ham_par)
      in if k \<noteq> K fs then Inl invalid_argument
         else Inr (fst (fold (\<lambda>I (matvec, onv).
                           (let double_J = x ! I;
                                (double_I, matvec) =
                                  annihilation_loop
                                    (\<lambda>p q J (double_I, matvec).
                                       (double_I + g p q p q * x ! J,
                                        matvec[J := matvec ! J + g p q p q * double_J]))
                                    fs onv k I (0, matvec)
                            in matvec[I := matvec ! I + double_I],
                            if I < dim fs - 1 then setNextONV fs onv else onv))
                     [0..<dim fs] (map2 (*) diagonal_vector x, makeONV fs 0))))"

section \<open>The orbital optimizer\<close>

record DOCINewtonOrbitalOptimizer =
  oo_ham_par :: HamiltonianParameters
  oo_is_converged :: bool
  oo_eigenpairs :: "Eigenpair list"

text \<open>\<open>DOCINewtonOrbitalOptimizer::get_eigenpairs\<close> and \<open>get_eigenpair\<close>.\<close>

definition get_eigenpairs :: "DOCINewtonOrbitalOptimizer \<Rightarrow> exception + Eigenpair list" where
  "get_eigenpairs opt = (if oo_is_converged opt then Inr (oo_eigenpairs opt) else Inl logic_error)"

definition get_eigenpair :: "DOCINewtonOrbitalOptimizer \<Rightarrow> nat \<Rightarrow> exception + Eigenpair" where
  "get_eigenpair opt index =
     (if oo_is_converged opt then Inr (oo_eigenpairs opt ! index) else Inl logic_error)"

record OrbitalOptimizationOptions =
  oo_convergence_threshold :: real
  oo_maximum_number_of_iterations :: nat

text \<open>
  What one round of \<open>DOCINewtonOrbitalOptimizer::solve\<close> obtains from its collaborators
  (the CI solver, the density matrices, the gradient and the Hessian): the eigenpairs
  of the CI solver, the norm of the gradient and the lowest eigenvalue of the Hessian.
\<close>

record oo_round =
  ci_eigenpairs :: "Eigenpair list"
  gradient_norm :: real
  lowest_hessian_eigenvalue :: real

text \<open>
  \<open>DOCINewtonOrbitalOptimizer::solve\<close>. The collaborators are parameters of the model:
  \<open>ci\<close> solves the CI problem for the current integrals and solver options and
  evaluates the gradient and the Hessian, \<open>rot\<close> rotates the integrals and updates the
  solver options; both may throw. The loop need not end, so the result is an option.
\<close>

partial_function (option) oo_solve_loop ::
  "(HamiltonianParameters \<Rightarrow> 'o \<Rightarrow> exception + oo_round)
   \<Rightarrow> (HamiltonianParameters \<Rightarrow> 'o \<Rightarrow> oo_round \<Rightarrow> exception + HamiltonianParameters \<times> 'o)
   \<Rightarrow> OrbitalOptimizationOptions \<Rightarrow> DOCINewtonOrbitalOptimizer \<Rightarrow> 'o \<Rightarrow> nat
   \<Rightarrow> ((exception + unit) \<times> DOCINewtonOrbitalOptimizer) option" where
  "oo_solve_loop ci rot oo_options opt solver_options oo_iterations =
     (if oo_is_converged opt then Some (Inr (), opt)
      else (case ci (oo_ham_par opt) solver_options of
              Inl e \<Rightarrow> Some (Inl e, opt)
            | Inr r \<Rightarrow>
                if gradient_norm r < oo_convergence_threshold oo_options then
                  (if lowest_hessian_eigenvalue r < 0 then
                     (case rot (oo_ham_par opt) solver_options r of
                        Inl e \<Rightarrow> Some (Inl e, opt)
                      | Inr (ham_par', solver_options') \<Rightarrow>
                          oo_solve_loop ci rot oo_options (opt\<lparr>oo_ham_par := ham_par'\<rparr>)
                            solver_options' oo_iterations)
                   else Some (Inr (), opt\<lparr>oo_is_converged := True,
                                           oo_eigenpairs := ci_eigenpairs r\<rparr>))
                else if oo_iterations + 1 \<ge> oo_maximum_number_of_iterations oo_options then
                  Some (Inl runtime_error, opt)
                else
                  (case rot (oo_ham_par opt) solver_options r of
                     Inl e \<Rightarrow> Some (Inl e, opt)
                   | Inr (ham_par', solver_options') \<Rightarrow>
                       oo_solve_loop ci rot oo_options (opt\<lparr>oo_ham_par := ham_par'\<rparr>)
                         solver_options' (oo_iterations + 1))))"

definition oo_solve ::
  "(HamiltonianParameters \<Rightarrow> 'o \<Rightarrow> exception + oo_round)
   \<Rightarrow> (HamiltonianParameters \<Rightarrow> 'o \<Rightarrow> oo_round \<Rightarrow> exception + HamiltonianParameters \<times> 'o)
   \<Rightarrow> OrbitalOptimizationOptions \<Rightarrow> DOCINewtonOrbitalOptimizer \<Rightarrow> 'o
   \<Rightarrow> ((exception + unit) \<times> DOCINewtonOrbitalOptimizer) option" where
  "oo_solve ci rot oo_options opt solver_options =
     oo_solve_loop ci rot oo_options (opt\<lparr>oo_is_converged := False\<rparr>) solver_options 0"

lemma calculateRepresentation_loop_numeral:
  "calculateRepresentation_loop fs (numeral k) address rep m =
     (if get_vertex_weights fs (pred_numeral k) m \<le> address
      then (if m - 1 = 0 then rep OR int_one_shifted (pred_numeral k)
            else calculateRepresentation_loop fs (pred_numeral k)
                   (address - get_vertex_weights fs (pred_numeral k) m)
                   (rep OR int_one_shifted (pred_numeral k)) (m - 1))
      else calculateRepresentation_loop fs (pred_numeral k) address rep m)"
  by (simp add: numeral_eq_Suc)

section \<open>Concrete scenarios of the addressing scheme\<close>

lemma choose_60_28: "(60 choose 28 :: nat) = 103719945525634515"
  by (simp add: binomial_code fold_atLeastAtMost_nat.simps fact_numeral)

lemma trunc_double_not_odd_large:
  assumes "is_binary64 d" and "odd c" and "2 ^ 53 \<le> c"
  shows "trunc_double d \<noteq> c"
proof (cases d)
  case (Double m e)
  have m: "\<bar>m\<bar> < 2 ^ 53"
    using assms(1) Double by simp
  show ?thesis
  proof (cases "0 \<le> e")
    case True
    show ?thesis
    proof (cases "nat e = 0")
      case True
      with \<open>0 \<le> e\<close> Double m assms(3) show ?thesis by auto
    next
      case False
      then have "even (m * 2 ^ nat e)" by simp
      with \<open>0 \<le> e\<close> Double assms(2) show ?thesis by auto
    qed
  next
    case False
    have "\<bar>m\<bar> div 2 ^ nat (- e) \<le> \<bar>m\<bar> div 1"
      by (rule zdiv_mono2) simp_all
    then have "\<bar>m\<bar> div 2 ^ nat (- e) \<le> \<bar>m\<bar>"
      by simp
    then have "\<bar>sgn m * (\<bar>m\<bar> div 2 ^ nat (- e))\<bar> \<le> \<bar>m\<bar>"
      by (simp add: abs_mult abs_sgn_eq pos_imp_zdiv_nonneg_iff)
    with m assms(3) False Double show ?thesis by auto
  qed
qed

lemma convert_inexact:
  assumes "is_binary64 d"
  shows "convert d \<noteq> Some (60 choose 28)"
proof
  assume "convert d = Some (60 choose 28)"
  then have "trunc_double d = 103719945525634515"
    by (auto simp: convert_def Let_def choose_60_28 split: if_splits)
  moreover have "trunc_double d \<noteq> 103719945525634515"
    by (rule trunc_double_not_odd_large [OF assms]) simp_all
  ultimately show False by simp
qed

lemma calculateDimension_60_28: "calculateDimension 60 28 = Inr 103719945525634512"
  by (simp add: calculateDimension_def calculateDimension_with_def binomial_coefficient_def
      choose_60_28 double_of_nat_def convert_def Let_def bit_length.simps)

text \<open>
  C4. A Fock space whose binomial coefficient cannot be converted to \<open>size_t\<close> is to
  signal an error, and \<open>calculateDimension(K, N)\<close> is never to return a value other
  than the binomial coefficient. The code computes the coefficient as a double: the
  number of configurations of 28 electrons in 60 orbitals, 103719945525634515, is odd
  and larger than \<open>2 ^ 53\<close>, so no double equals it. Whatever double the library
  function returns, \<open>calculateDimension(60, 28)\<close> does not return the binomial
  coefficient.
\<close>

theorem calculateDimension_inexact:
  assumes "\<And>d. B 60 28 = Inr d \<Longrightarrow> is_binary64 d"
  shows "calculateDimension_with B 60 28 \<noteq> Inr (60 choose 28)"
  using assms convert_inexact
  by (auto simp: calculateDimension_with_def split: sum.splits option.splits)

theorem calculateDimension_inexact_witness:
  "calculateDimension 60 28 \<noteq> Inr (60 choose 28)"
  unfolding calculateDimension_def
  by (rule calculateDimension_inexact)
    (simp add: binomial_coefficient_def choose_60_28 double_of_nat_def Let_def bit_length.simps)

definition fock_space_4_2 :: FockSpace where
  "fock_space_4_2 = \<lparr>K = 4, dim = 6, N = 2, vertex_weights = make_vertex_weights 4 2\<rparr>"

lemma make_vertex_weights_4_2:
  "make_vertex_weights 4 2 = [[1, 0, 0], [1, 1, 0], [1, 2, 1], [0, 3, 3], [0, 0, 6]]"
  by code_simp

lemma calculateDimension_4_2: "calculateDimension 4 2 = Inr 6"
  by (simp add: calculateDimension_def calculateDimension_with_def binomial_coefficient_def
      double_of_nat_def convert_def binomial_code fold_atLeastAtMost_nat.simps fact_numeral)

text \<open>
  C9. For 4 orbitals and 2 electrons the dimension is 6, address 0 is the
  representation \<open>0b0011\<close> and the other way round, and the permutation after
  \<open>0b0011\<close> is \<open>0b0101\<close>.
\<close>

theorem scenario_K4_N2:
  "calculateDimension 4 2 = Inr 6
   \<and> FockSpace_ctor 4 2 = Inr fock_space_4_2
   \<and> calculateRepresentation fock_space_4_2 0 = 3
   \<and> getAddress fock_space_4_2 3 = 0
   \<and> ulongNextPermutation 3 = 5"
proof -
  have "FockSpace_ctor 4 2 = Inr fock_space_4_2"
    by (simp add: FockSpace_ctor_def calculateDimension_4_2 fock_space_4_2_def)
  moreover have "calculateRepresentation fock_space_4_2 0 = 3"
    by (simp add: calculateRepresentation_def fock_space_4_2_def make_vertex_weights_4_2
        get_vertex_weights_def int_one_shifted_def calculateRepresentation_loop_numeral)
  moreover have "getAddress fock_space_4_2 3 = 0"
    by (simp add: getAddress_def fock_space_4_2_def make_vertex_weights_4_2
        getAddress_loop.simps get_vertex_weights_def builtin_ctzl_def ctz_nat.simps)
  moreover have "ulongNextPermutation 3 = 5"
    by (simp add: ulongNextPermutation_def builtin_ctzl_def ctz_nat.simps)
  ultimately show ?thesis
    by (simp add: calculateDimension_4_2)
qed

definition fock_space_32_1 :: FockSpace where
  "fock_space_32_1 = \<lparr>K = 32, dim = 32, N = 1, vertex_weights = make_vertex_weights 32 1\<rparr>"

lemma make_vertex_weights_32_1:
  "make_vertex_weights 32 (Suc 0) = map (\<lambda>p. [1, of_nat p]) [0..<32] @ [[0, 32]]"
  by code_simp

lemma calculateDimension_32_1: "calculateDimension 32 (Suc 0) = Inr 32"
  by (simp add: calculateDimension_def calculateDimension_with_def binomial_coefficient_def
      double_of_nat_def convert_def)

text \<open>
  C1. For every Fock space with at most 60 orbitals, \<open>calculateRepresentation\<close> is to
  undo \<open>getAddress\<close>. With 32 orbitals and one electron in orbital 31, the address
  is 31, and \<open>calculateRepresentation(31)\<close> sets bit 31 with the 32-bit shift
  \<open>(1) << 31\<close>, whose sign extension sets the bits 32 to 63 as well.
\<close>

theorem roundtrip_K32_N1:
  "FockSpace_ctor 32 1 = Inr fock_space_32_1
   \<and> getAddress fock_space_32_1 0x80000000 = 31
   \<and> calculateRepresentation fock_space_32_1 31 = 0xFFFFFFFF80000000
   \<and> calculateRepresentation fock_space_32_1 (getAddress fock_space_32_1 0x80000000) \<noteq> 0x80000000"
proof -
  have ctor: "FockSpace_ctor 32 1 = Inr fock_space_32_1"
    by (simp add: FockSpace_ctor_def calculateDimension_32_1 fock_space_32_1_def)
  have W: "vertex_weights fock_space_32_1 ! 31 = [1, 31]"
    by (simp add: fock_space_32_1_def make_vertex_weights_32_1 nth_append)
  have ctz: "builtin_ctzl 0x80000000 = 31"
    by (simp add: builtin_ctzl_def ctz_nat.simps)
  have addr: "getAddress fock_space_32_1 0x80000000 = 31"
    by (simp add: getAddress_def getAddress_loop.simps get_vertex_weights_def W ctz)
  have rep: "calculateRepresentation fock_space_32_1 31 = 0xFFFFFFFF80000000"
  proof -
    have "calculateRepresentation fock_space_32_1 31
        = calculateRepresentation_loop fock_space_32_1 32 31 0 1"
      by (simp add: calculateRepresentation_def fock_space_32_1_def)
    also have "\<dots> = 0xFFFFFFFF80000000"
      by (simp add: calculateRepresentation_loop_numeral get_vertex_weights_def W
          int_one_shifted_def)
    finally show ?thesis .
  qed
  show ?thesis
    using ctor addr rep by simp
qed


section \<open>Adding configurations to a selected Fock space\<close>

lemma addConfiguration_failure:
  assumes "fst (addConfiguration fs onv1 onv2) = Inl e"
  shows "snd (addConfiguration fs onv1 onv2) = fs\<lparr>sfs_dim := sfs_dim fs + 1\<rparr>"
  using assms by (auto simp: addConfiguration_def Let_def split: sum.splits)

text \<open>
  C10. A call of \<open>addConfiguration\<close> that throws is to leave the Fock space as it
  was. In a selected Fock space of 2 orbitals with one alpha and one beta electron,
  the string \<open>011\<close> has 3 characters: the call throws \<open>std::invalid_argument\<close>, the
  list of configurations is still empty, and the dimension is 1 instead of 0.
\<close>

theorem addConfiguration_not_atomic:
  "addConfiguration (SelectedFockSpace_ctor 2 1 1) ''011'' ''01''
     = (Inl invalid_argument, (SelectedFockSpace_ctor 2 1 1)\<lparr>sfs_dim := 1\<rparr>)
   \<and> sfs_dim (SelectedFockSpace_ctor 2 1 1) = 0
   \<and> sfs_dim (snd (addConfiguration (SelectedFockSpace_ctor 2 1 1) ''011'' ''01'')) = 1
   \<and> configurations (snd (addConfiguration (SelectedFockSpace_ctor 2 1 1) ''011'' ''01'')) = []"
  by (simp add: addConfiguration_def SelectedFockSpace_ctor_def makeConfiguration_def
      bitset_valid_def Let_def)


section \<open>The Davidson solver: construction, correction vectors, results\<close>

lemma squaredNorm_nonneg: "0 \<le> squaredNorm x"
  unfolding squaredNorm_def by (induction x) auto

lemma squaredNorm_pos_iff: "0 < squaredNorm x \<longleftrightarrow> (\<exists>a\<in>set x. a \<noteq> 0)"
proof (induction x)
  case Nil
  then show ?case by (simp add: squaredNorm_def)
next
  case (Cons a x)
  have "squaredNorm (a # x) = a * a + squaredNorm x"
    by (simp add: squaredNorm_def)
  moreover have "0 \<le> a * a" by simp
  moreover have "0 < a * a \<longleftrightarrow> a \<noteq> 0"
    by (auto simp: zero_less_mult_iff)
  ultimately show ?case
    using Cons squaredNorm_nonneg [of x] by (auto simp: add_pos_nonneg add_nonneg_pos) 
qed

lemma squaredNorm_scale: "squaredNorm (map (\<lambda>a. a / c) x) = squaredNorm x / (c * c)"
  unfolding squaredNorm_def by (induction x) (auto simp: add_divide_distrib)

lemma norm_vec_normalize:
  assumes "0 < squaredNorm x"
  shows "norm_vec (normalize x) = 1"
proof -
  have "squaredNorm (normalize x) = squaredNorm x / (sqrt (squaredNorm x) * sqrt (squaredNorm x))"
    using assms by (simp add: normalize_def squaredNorm_scale)
  also have "\<dots> = 1"
    using assms by simp
  finally show ?thesis
    by (simp add: norm_vec_def)
qed

lemma correction_divisor_max:
  assumes "0 < t"
  shows "correction_divisor d t lam j = max \<bar>d ! j - lam\<bar> t"
    and "correction_divisor d t lam j \<noteq> 0"
  using assms by (auto simp: correction_divisor_def max_def)

lemma residual_correction_Some:
  assumes "0 < t"
  shows "residual_correction d t lam R
    = Some (map (\<lambda>j. R ! j / max \<bar>d ! j - lam\<bar> t) [0..<length R])"
  using correction_divisor_max [OF assms] by (simp add: residual_correction_def)

text \<open>
  C5. With a correction threshold greater than 0, the correction vector of a residual
  vector, before it is normalized, is the residual divided, coefficient by coefficient,
  by the larger of the distance \<open>|diagonal - lambda|\<close> and the correction threshold; it
  is normalized afterwards. The normalized vector has norm 1 when the correction vector
  has a coefficient other than 0; a correction vector of zeros (the correction of a
  residual vector of zeros) is left as it is.
\<close>

theorem davidson_correction_vector:
  assumes "0 < t"
  shows "\<exists>Delta. residual_correction d t lam R = Some Delta
    \<and> length Delta = length R
    \<and> (\<forall>j<length R. Delta ! j = R ! j / max \<bar>d ! j - lam\<bar> t)
    \<and> ((\<exists>j<length R. Delta ! j \<noteq> 0) \<longrightarrow> norm_vec (normalize Delta) = 1)
    \<and> ((\<forall>j<length R. Delta ! j = 0) \<longrightarrow> normalize Delta = Delta)"
proof -
  define Delta where "Delta = map (\<lambda>j. R ! j / max \<bar>d ! j - lam\<bar> t) [0..<length R]"
  have rc: "residual_correction d t lam R = Some Delta"
    unfolding Delta_def by (rule residual_correction_Some [OF assms])
  have len: "length Delta = length R"
    by (simp add: Delta_def)
  have nth: "\<forall>j<length R. Delta ! j = R ! j / max \<bar>d ! j - lam\<bar> t"
    by (simp add: Delta_def)
  have unit: "norm_vec (normalize Delta) = 1" if "\<exists>j<length R. Delta ! j \<noteq> 0"
  proof -
    have "\<exists>a\<in>set Delta. a \<noteq> 0"
      using that len by (metis nth_mem)
    then show ?thesis
      by (simp add: norm_vec_normalize squaredNorm_pos_iff)
  qed
  have zero: "normalize Delta = Delta" if "\<forall>j<length R. Delta ! j = 0"
  proof -
    have "\<not> (\<exists>a\<in>set Delta. a \<noteq> 0)"
      using that len by (metis in_set_conv_nth)
    then show ?thesis
      by (simp add: normalize_def squaredNorm_pos_iff)
  qed
  show ?thesis
    using rc len nth unit zero by blast
qed

lemma rc_example: "residual_correction [1, 3] (1 / 2) 1 [3, 4] = Some [6, 2]"
  by (simp add: residual_correction_def correction_divisor_def upt_rec_numeral less_Suc_eq)

lemma rc_example_zero: "residual_correction [1, 3] (1 / 2) 1 [0, 0] = Some [0, 0]"
  by (simp add: residual_correction_def correction_divisor_def upt_rec_numeral less_Suc_eq)

theorem davidson_correction_vector_witness:
  "0 < (1 / 2 :: real)
   \<and> residual_correction [1, 3] (1 / 2) 1 [3, 4] = Some [6, 2]
   \<and> [6, 2 :: real] ! 1 = 4 / max \<bar>3 - 1\<bar> (1 / 2)
   \<and> norm_vec (normalize [6, 2]) = 1
   \<and> residual_correction [1, 3] (1 / 2) 1 [0, 0] = Some [0, 0]
   \<and> normalize [0, 0] = [0, 0 :: real]"
proof -
  have t: "0 < (1 / 2 :: real)"
    by simp
  have a: "\<exists>j<length [3, 4 :: real]. [6, 2 :: real] ! j \<noteq> 0"
    by (rule exI [of _ 0]) simp
  have b: "\<forall>j<length [0, 0 :: real]. [0, 0 :: real] ! j = 0"
    by (simp add: less_Suc_eq)
  have "norm_vec (normalize [6, 2]) = 1"
    using davidson_correction_vector [OF t, of "[1, 3]" 1 "[3, 4]"] a
    unfolding rc_example by blast
  moreover have "normalize [0, 0] = [0, 0 :: real]"
    using davidson_correction_vector [OF t, of "[1, 3]" 1 "[0, 0]"] b
    unfolding rc_example_zero by blast
  ultimately show ?thesis
    using rc_example rc_example_zero by simp
qed

text \<open>
  Two calls where the claim fails. The residual vector of an exact eigenvector is the
  zero vector: its correction vector is the zero vector, before and after
  \<open>normalize()\<close>, and its norm is 0. With the correction threshold 0 and a coefficient
  of the diagonal equal to the Ritz value, the source divides the residual coefficient
  3 by 0: the correction column holds an infinity, \<open>normalize()\<close> makes it a column
  with a NaN, and there is no correction vector of norm 1.
\<close>

theorem correction_not_unit_norm:
  "residual_correction [1, 3] (1 / 2) 1 [0, 0] = Some [0, 0]
   \<and> norm_vec (normalize [0, 0]) \<noteq> 1
   \<and> correction_divisor [1, 3] 0 1 0 = 0
   \<and> residual_correction [1, 3] 0 1 [3, 4] = None"
proof -
  have "norm_vec (normalize [0, 0]) \<noteq> 1"
    by (simp add: normalize_def squaredNorm_def norm_vec_def)
  moreover have z: "correction_divisor [1, 3] 0 1 0 = 0"
    by (simp add: correction_divisor_def)
  moreover have "residual_correction [1, 3] 0 1 [3, 4] = None"
    using z by (auto simp: residual_correction_def)
  ultimately show ?thesis
    using rc_example_zero by simp
qed

text \<open>
  C6. The constructor of the Davidson solver fails with \<open>std::invalid_argument\<close> exactly
  when more eigenpairs are requested than there are initial guesses or than the
  collapsed subspace dimension, or the collapsed subspace dimension is not smaller than
  the maximum subspace dimension; otherwise it returns a solver that is not solved.
\<close>

theorem DavidsonSolver_ctor_contract:
  "(DavidsonSolver_ctor mvp diag V0 r conv_thr corr_thr max_sub coll_sub max_it = Inl invalid_argument)
     = (r > cols V0 \<or> r > coll_sub \<or> coll_sub \<ge> max_sub)
   \<and> (\<exists>s. DavidsonSolver_ctor mvp diag V0 r conv_thr corr_thr max_sub coll_sub max_it = Inr s
          \<and> is_solved s = False \<and> number_of_iterations s = 0 \<and> eigenpairs s = [])
     = (r \<le> cols V0 \<and> r \<le> coll_sub \<and> coll_sub < max_sub)"
  by (auto simp: DavidsonSolver_ctor_def)

lemma solve_loop_Inr:
  assumes "solve_loop eig s sub = (Inr (), s')"
  shows "is_solved s'"
  using assms
proof (induction eig s sub rule: solve_loop.induct)
  case (1 eig s sub)
  show ?case
  proof (cases "is_solved s")
    case True
    with "1.prems" show ?thesis by (simp add: solve_loop.simps)
  next
    case False
    show ?thesis
    proof (cases "davidson_round eig s sub")
      case (Converged s1)
      with False "1.prems" show ?thesis
        by (auto simp: solve_loop.simps davidson_round_def Let_def split: if_splits)
    next
      case (Thrown e s1)
      with False "1.prems" show ?thesis by (simp add: solve_loop.simps)
    next
      case (Continue s1 sub1)
      with False "1.prems" "1.IH" show ?thesis by (simp add: solve_loop.simps)
    qed
  qed
qed

lemma solve_loop_Inl:
  assumes "solve_loop eig s sub = (Inl e, s')" and "\<not> is_solved s"
  shows "\<not> is_solved s' \<and> e = runtime_error"
  using assms
proof (induction eig s sub rule: solve_loop.induct)
  case (1 eig s sub)
  show ?case
  proof (cases "davidson_round eig s sub")
    case (Converged s1)
    with "1.prems" show ?thesis by (simp add: solve_loop.simps)
  next
    case (Thrown e1 s1)
    with "1.prems" show ?thesis
      by (auto simp: solve_loop.simps davidson_round_def Let_def split: if_splits)
  next
    case (Continue s1 sub1)
    moreover have "\<not> is_solved s1"
      using davidson_round_Continue(4) [OF Continue] "1.prems"(2) by simp
    ultimately show ?thesis
      using "1.prems" "1.IH" by (simp add: solve_loop.simps)
  qed
qed

lemma oo_solve_loop_result:
  assumes "oo_solve_loop ci rot oo_options opt sopts n = Some y"
  shows "\<not> oo_is_converged opt \<longrightarrow>
    (case fst y of Inr u \<Rightarrow> oo_is_converged (snd y) | Inl e \<Rightarrow> \<not> oo_is_converged (snd y))"
proof (rule oo_solve_loop.raw_induct [OF _ assms], goal_cases)
  case (1 f ci rot oo_options opt sopts n y)
  from 1(2) show ?case
    by (auto split: sum.splits if_splits prod.splits dest!: 1(1))
qed


text \<open>
  C7. A result accessor called before its solve has succeeded throws
  \<open>std::invalid_argument\<close> (the number of iterations of the Davidson solver) or
  \<open>std::logic_error\<close> (the eigenpairs of the orbital optimizer), both logic errors and
  neither a runtime error, while the solvers report a failure to converge as
  \<open>std::runtime_error\<close>; after a solve that succeeded the accessors return what is
  stored.
\<close>

theorem result_accessors:
  "(\<not> is_solved s \<longrightarrow> get_number_of_iterations s = Inl invalid_argument)
   \<and> (DavidsonSolver_ctor mvp diag V0 r conv_thr corr_thr max_sub coll_sub max_it = Inr s0
        \<longrightarrow> get_number_of_iterations s0 = Inl invalid_argument)
   \<and> (\<not> is_solved s \<and> solve eig s = (Inl e, s')
        \<longrightarrow> e = runtime_error \<and> get_number_of_iterations s' = Inl invalid_argument)
   \<and> (solve eig s = (Inr (), s')
        \<longrightarrow> get_number_of_iterations s' = Inr (number_of_iterations s'))
   \<and> (\<not> oo_is_converged opt
        \<longrightarrow> get_eigenpairs opt = Inl logic_error \<and> get_eigenpair opt i = Inl logic_error)
   \<and> (oo_solve ci rot oo_options opt sopts = Some (Inl e', opt')
        \<longrightarrow> get_eigenpairs opt' = Inl logic_error \<and> get_eigenpair opt' i = Inl logic_error)
   \<and> (oo_solve ci rot oo_options opt sopts = Some (Inr (), opt')
        \<longrightarrow> get_eigenpairs opt' = Inr (oo_eigenpairs opt')
            \<and> get_eigenpair opt' i = Inr (oo_eigenpairs opt' ! i))
   \<and> is_logic_error invalid_argument \<and> is_logic_error logic_error
   \<and> \<not> is_logic_error runtime_error
   \<and> \<not> is_runtime_error invalid_argument \<and> \<not> is_runtime_error logic_error
   \<and> is_runtime_error runtime_error"
proof -
  have a: "get_number_of_iterations s0 = Inl invalid_argument"
    if "DavidsonSolver_ctor mvp diag V0 r conv_thr corr_thr max_sub coll_sub max_it = Inr s0"
    using that by (auto simp: DavidsonSolver_ctor_def get_number_of_iterations_def split: if_splits)
  have b: "e = runtime_error \<and> get_number_of_iterations s' = Inl invalid_argument"
    if "\<not> is_solved s" "solve eig s = (Inl e, s')"
    using solve_loop_Inl [of eig s _ e s'] that
    by (simp add: solve_def Let_def get_number_of_iterations_def)
  have c: "get_number_of_iterations s' = Inr (number_of_iterations s')"
    if "solve eig s = (Inr (), s')"
    using solve_loop_Inr [of eig s _ s'] that
    by (simp add: solve_def Let_def get_number_of_iterations_def)
  have d: "get_eigenpairs opt' = Inl logic_error \<and> get_eigenpair opt' i = Inl logic_error"
    if "oo_solve ci rot oo_options opt sopts = Some (Inl e', opt')"
    using oo_solve_loop_result [of ci rot oo_options _ sopts 0 "(Inl e', opt')"] that
    by (simp add: oo_solve_def get_eigenpairs_def get_eigenpair_def)
  have e: "get_eigenpairs opt' = Inr (oo_eigenpairs opt')
            \<and> get_eigenpair opt' i = Inr (oo_eigenpairs opt' ! i)"
    if "oo_solve ci rot oo_options opt sopts = Some (Inr (), opt')"
    using oo_solve_loop_result [of ci rot oo_options _ sopts 0 "(Inr (), opt')"] that
    by (simp add: oo_solve_def get_eigenpairs_def get_eigenpair_def)
  show ?thesis
    using a b c d e by (simp add: get_number_of_iterations_def get_eigenpairs_def get_eigenpair_def)
qed

definition example_V :: MatrixX where
  "example_V = \<lparr>rows = 1, cols = 1, coeff = (\<lambda>i j. 1)\<rparr>"

definition example_eig :: eigensolver where
  "example_eig M = ([coeff M 0 0], example_V)"

definition example_solver :: "real \<Rightarrow> nat \<Rightarrow> DavidsonSolver" where
  "example_solver conv_thr max_it =
     \<lparr>ds_dim = 1, number_of_requested_eigenpairs = 1, is_solved = False, eigenpairs = [],
      number_of_iterations = 0, matrixVectorProduct = map ((*) 2), diagonal = [2],
      V_0 = example_V, convergence_threshold = conv_thr, correction_threshold = 1 / 10,
      maximum_subspace_dimension = 2, collapsed_subspace_dimension = 1,
      maximum_number_of_iterations = max_it\<rparr>"

lemma example_ctor:
  "DavidsonSolver_ctor (map ((*) 2)) [2] example_V 1 conv_thr (1 / 10) 2 1 max_it
     = Inr (example_solver conv_thr max_it)"
  by (simp add: DavidsonSolver_ctor_def example_solver_def example_V_def)

definition example_subspace :: subspace where
  "example_subspace =
     \<lparr>sub_V = example_V, sub_VA = set_col (Zero_matrix 1 1) 0 [2],
      sub_S = mat_mul (transpose_mat example_V) (set_col (Zero_matrix 1 1) 0 [2])\<rparr>"

lemma example_solve_unfold:
  "solve example_eig (example_solver conv_thr max_it)
     = (case davidson_round example_eig (example_solver conv_thr max_it) example_subspace of
          Converged s' \<Rightarrow> (Inr (), s')
        | Thrown e s' \<Rightarrow> (Inl e, s')
        | Continue s' sub' \<Rightarrow> solve_loop example_eig s' sub')"
proof -
  have V: "V_0 (example_solver conv_thr max_it) = example_V" "cols example_V = Suc 0"
    "col example_V 0 = [1]" "ds_dim (example_solver conv_thr max_it) = Suc 0"
    "matrixVectorProduct (example_solver conv_thr max_it) = map ((*) 2)"
    "is_solved (example_solver conv_thr max_it) = False"
    by (simp_all add: example_solver_def example_V_def col_def)
  show ?thesis
    by (simp add: solve_def Let_def V example_subspace_def
        solve_loop.simps [of _ "example_solver conv_thr max_it"])
qed

lemma example_parts:
  "fst (example_eig (sub_S example_subspace)) = [2]"
  "col (topLeftCorner (snd (example_eig (sub_S example_subspace))) (cols (sub_S example_subspace)) (Suc 0)) 0 = [1]"
  "mat_vec (sub_VA example_subspace) [1] = [2]"
  "col (mat_mul (sub_V example_subspace)
      (topLeftCorner (snd (example_eig (sub_S example_subspace))) (cols (sub_S example_subspace)) (Suc 0))) 0 = [1]"
  by (simp_all add: example_subspace_def example_eig_def example_V_def mat_mul_def transpose_mat_def
      set_col_def Zero_matrix_def topLeftCorner_def col_def mat_vec_def)

lemma example_round_good:
  "davidson_round example_eig (example_solver (1 / 10) 5) example_subspace
     = Converged ((example_solver (1 / 10) 5)
         \<lparr>is_solved := True, eigenpairs := [\<lparr>eigenvalue = 2, eigenvector = [1]\<rparr>]\<rparr>)"
proof -
  have r: "number_of_requested_eigenpairs (example_solver (1 / 10) 5) = Suc 0"
    "convergence_threshold (example_solver (1 / 10) 5) = 1 / 10"
    "eigenpairs (example_solver (1 / 10) 5) = []"
    by (simp_all add: example_solver_def)
  show ?thesis
    by (simp add: davidson_round_def Let_def r example_parts norm_vec_def squaredNorm_def
        vec_sub_def vec_scale_def)
qed

lemma example_round_bad:
  "davidson_round example_eig (example_solver (- 1) (Suc 0)) example_subspace
     = Thrown runtime_error ((example_solver (- 1) (Suc 0))\<lparr>number_of_iterations := Suc 0\<rparr>)"
proof -
  have r: "number_of_requested_eigenpairs (example_solver (- 1) (Suc 0)) = Suc 0"
    "convergence_threshold (example_solver (- 1) (Suc 0)) = - 1"
    "number_of_iterations (example_solver (- 1) (Suc 0)) = 0"
    "maximum_number_of_iterations (example_solver (- 1) (Suc 0)) = Suc 0"
    by (simp_all add: example_solver_def)
  show ?thesis
    by (simp add: davidson_round_def Let_def r example_parts norm_vec_def squaredNorm_def
        vec_sub_def vec_scale_def)
qed

definition example_optimizer :: DOCINewtonOrbitalOptimizer where
  "example_optimizer =
     \<lparr>oo_ham_par = HamiltonianParameters_ctor (Zero_matrix 0 0) (Zero_matrix 0 0)
        \<lparr>te_dim = 0, te_coeff = (\<lambda>i j k l. 0)\<rparr> (Zero_matrix 0 0),
      oo_is_converged = False, oo_eigenpairs = []\<rparr>"

definition example_ci :: "HamiltonianParameters \<Rightarrow> unit \<Rightarrow> exception + oo_round" where
  "example_ci ham_par u =
     Inr \<lparr>ci_eigenpairs = [\<lparr>eigenvalue = 2, eigenvector = [1]\<rparr>], gradient_norm = 0,
          lowest_hessian_eigenvalue = 1\<rparr>"

definition example_ci_failing :: "HamiltonianParameters \<Rightarrow> unit \<Rightarrow> exception + oo_round" where
  "example_ci_failing ham_par u = Inl runtime_error"

definition example_rot ::
  "HamiltonianParameters \<Rightarrow> unit \<Rightarrow> oo_round \<Rightarrow> exception + HamiltonianParameters \<times> unit" where
  "example_rot ham_par u r = Inr (ham_par, u)"

definition example_options :: OrbitalOptimizationOptions where
  "example_options = \<lparr>oo_convergence_threshold = 1 / 10, oo_maximum_number_of_iterations = 5\<rparr>"

lemma example_oo_solve_good:
  "oo_solve example_ci example_rot example_options example_optimizer ()
     = Some (Inr (), example_optimizer
         \<lparr>oo_is_converged := True, oo_eigenpairs := [\<lparr>eigenvalue = 2, eigenvector = [1]\<rparr>]\<rparr>)"
  by (simp add: oo_solve_def oo_solve_loop.simps [of example_ci] example_ci_def
      example_options_def example_optimizer_def)

lemma example_oo_solve_bad:
  "oo_solve example_ci_failing example_rot example_options example_optimizer ()
     = Some (Inl runtime_error, example_optimizer)"
  by (simp add: oo_solve_def oo_solve_loop.simps [of example_ci_failing] example_ci_failing_def
      example_optimizer_def)

theorem result_accessors_witness:
  "get_number_of_iterations (example_solver (1 / 10) 5) = Inl invalid_argument
   \<and> fst (solve example_eig (example_solver (- 1) (Suc 0))) = Inl runtime_error
   \<and> get_number_of_iterations (snd (solve example_eig (example_solver (- 1) (Suc 0))))
       = Inl invalid_argument
   \<and> fst (solve example_eig (example_solver (1 / 10) 5)) = Inr ()
   \<and> get_number_of_iterations (snd (solve example_eig (example_solver (1 / 10) 5))) = Inr 0
   \<and> get_eigenpairs example_optimizer = Inl logic_error
   \<and> get_eigenpairs (snd (the (oo_solve example_ci_failing example_rot example_options
        example_optimizer ()))) = Inl logic_error
   \<and> get_eigenpair (snd (the (oo_solve example_ci example_rot example_options
        example_optimizer ()))) 0 = Inr \<lparr>eigenvalue = 2, eigenvector = [1]\<rparr>"
proof -
  let ?good = "example_solver (1 / 10) 5"
  let ?bad = "example_solver (- 1) (Suc 0)"
  let ?pairs = "[\<lparr>eigenvalue = 2, eigenvector = [1]\<rparr>]"
  have good: "solve example_eig ?good = (Inr (), ?good\<lparr>is_solved := True, eigenpairs := ?pairs\<rparr>)"
    by (simp add: example_solve_unfold example_round_good)
  have bad: "solve example_eig ?bad = (Inl runtime_error, ?bad\<lparr>number_of_iterations := Suc 0\<rparr>)"
    by (simp add: example_solve_unfold example_round_bad)
  have fresh: "\<not> is_solved (example_solver c m)" for c m
    by (simp add: example_solver_def)
  have fresh_oo: "\<not> oo_is_converged example_optimizer"
    by (simp add: example_optimizer_def)
  note R = result_accessors [where mvp = "map ((*) 2)" and diag = "[2]" and ?V0.0 = example_V
      and r = 1 and conv_thr = "1 / 10" and corr_thr = "1 / 10" and max_sub = 2 and coll_sub = 1
      and max_it = 5 and ?s0.0 = ?good and eig = example_eig and rot = example_rot
      and oo_options = example_options and sopts = "()" and opt = example_optimizer and i = 0]
  have 1: "get_number_of_iterations ?good = Inl invalid_argument"
    using R [where s = ?good and e = runtime_error and s' = ?good and ci = example_ci
        and e' = runtime_error and opt' = example_optimizer] fresh
    by simp
  have 2: "get_number_of_iterations (?bad\<lparr>number_of_iterations := Suc 0\<rparr>) = Inl invalid_argument"
    using R [where s = ?bad and e = runtime_error and s' = "?bad\<lparr>number_of_iterations := Suc 0\<rparr>"
        and ci = example_ci and e' = runtime_error and opt' = example_optimizer] fresh bad
    by simp
  have 3: "get_number_of_iterations (?good\<lparr>is_solved := True, eigenpairs := ?pairs\<rparr>)
      = Inr (number_of_iterations (?good\<lparr>is_solved := True, eigenpairs := ?pairs\<rparr>))"
    using R [where s = ?good and e = runtime_error
        and s' = "?good\<lparr>is_solved := True, eigenpairs := ?pairs\<rparr>"
        and ci = example_ci and e' = runtime_error and opt' = example_optimizer] good
    by simp
  have 4: "get_eigenpairs example_optimizer = Inl logic_error"
    using R [where s = ?good and e = runtime_error and s' = ?good and ci = example_ci_failing
        and e' = runtime_error and opt' = example_optimizer] example_oo_solve_bad
    by simp
  have 6: "get_eigenpair (example_optimizer\<lparr>oo_is_converged := True, oo_eigenpairs := ?pairs\<rparr>) 0
      = Inr (oo_eigenpairs (example_optimizer\<lparr>oo_is_converged := True, oo_eigenpairs := ?pairs\<rparr>) ! 0)"
    using R [where s = ?good and e = runtime_error and s' = ?good and ci = example_ci
        and e' = runtime_error
        and opt' = "example_optimizer\<lparr>oo_is_converged := True, oo_eigenpairs := ?pairs\<rparr>"]
      example_oo_solve_good
    by simp
  have n: "number_of_iterations (?good\<lparr>is_solved := True, eigenpairs := ?pairs\<rparr>) = 0"
    by (simp add: example_solver_def)
  show ?thesis
    using 1 2 3 4 6 by (simp add: good bad n example_oo_solve_good example_oo_solve_bad)
qed

section \<open>The frozen core Hamiltonian\<close>

text \<open>
  The frozen core energy in closed form: the sum over the frozen orbitals and over the
  pairs of frozen orbitals that the loops of \<open>calculateFrozenCoreDiagonal\<close> accumulate.
\<close>

definition frozen_core_energy :: "HamiltonianParameters \<Rightarrow> nat \<Rightarrow> real" where
  "frozen_core_energy ham_par x =
     (let g = te_coeff (hp_g ham_par); h = coeff (hp_h ham_par)
      in (\<Sum>i<x. 2 * h i i + g i i i i)
         + (\<Sum>i<x. \<Sum>j\<in>{i + 1..<x}. 2 * g i i j j + 2 * g j j i i - g j i i j - g i j j i))"

lemma fold_add_upt:
  fixes f :: "nat \<Rightarrow> real"
  shows "fold (\<lambda>j v. v + f j) [a..<b] v0 = v0 + (\<Sum>j\<in>{a..<b}. f j)"
proof (induction b)
  case 0
  then show ?case by simp
next
  case (Suc b)
  then show ?case by (cases "a \<le> b") (simp_all add: sum.atLeastLessThan_Suc)
qed

lemma fold_nested_upt:
  fixes f :: "nat \<Rightarrow> real" and F :: "nat \<Rightarrow> real"
  shows "fold (\<lambda>i v. F i + (v + f i)) [0..<n] v0 = v0 + (\<Sum>i<n. f i) + (\<Sum>i<n. F i)"
  by (induction n) (simp_all add: algebra_simps)

lemma frozen_core_value_closed_form:
  "frozen_core_value ham_par x = frozen_core_energy ham_par x"
proof -
  have "frozen_core_value ham_par x =
      fold (\<lambda>i v. (\<Sum>j\<in>{i + 1..<x}. 2 * te_coeff (hp_g ham_par) i i j j
                + 2 * te_coeff (hp_g ham_par) j j i i - te_coeff (hp_g ham_par) j i i j
                - te_coeff (hp_g ham_par) i j j i)
             + (v + (2 * coeff (hp_h ham_par) i i + te_coeff (hp_g ham_par) i i i i)))
        [0..<x] 0"
    by (simp add: frozen_core_value_def Let_def fold_add_upt add.commute)
  then show ?thesis
    by (simp add: fold_nested_upt frozen_core_energy_def Let_def)
qed

lemma cols_add_to_coeff [simp]: "cols (add_to_coeff M i j v) = cols M"
  by (simp add: add_to_coeff_def)

lemma cols_freeze_pair [simp]: "cols (freeze_pair g x i j h) = cols h"
proof -
  have "cols (fold f ls h) = cols h"
    if "\<And>l h. cols (f l h) = cols h" for f :: "nat \<Rightarrow> MatrixX \<Rightarrow> MatrixX" and ls
    using that by (induction ls arbitrary: h) simp_all
  then show ?thesis
    by (simp add: freeze_pair_def Let_def)
qed

lemma cols_fold:
  assumes "\<And>l h. cols (f l h) = cols h"
  shows "cols (fold f ls h) = cols h"
  using assms by (induction ls arbitrary: h) simp_all

lemma cols_freeze_orbital [simp]: "cols (freeze_orbital g x ka i h) = cols h"
  by (simp add: freeze_orbital_def Let_def cols_fold)

lemma hp_K_freeze:
  "hp_K (freezeHamiltonianParameters ham_par x) = size_t_sub_add (hp_K ham_par) x 0"
  by (simp add: freezeHamiltonianParameters_def Let_def HamiltonianParameters_ctor_def get_dim_def
      cols_fold block_def)

lemma size_t_sub_add_0:
  assumes "x \<le> k" and "k < 2 ^ 64"
  shows "size_t_sub_add k x 0 = k - x"
proof -
  have "(int k - int x) mod 2 ^ 64 = int k - int x"
    using assms by (intro mod_pos_pos_trivial) auto
  then show ?thesis
    using assms by (simp add: size_t_sub_add_def)
qed

text \<open>
  C8. The Hamiltonian of a frozen core builder with \<open>X\<close> frozen orbitals is the
  Hamiltonian that the wrapped builder constructs from the frozen parameters, which
  have \<open>K - X\<close> orbitals, with the frozen core energy added to every diagonal
  coefficient: the same shift for every address.
\<close>

theorem frozen_core_shift:
  assumes "hb_constructHamiltonian (active_hamiltonian_builder fc)
             (freezeHamiltonianParameters ham_par (fc_X fc)) = Inr H"
    and "fc_X fc \<le> hp_K ham_par" and "hp_K ham_par < 2 ^ 64"
  shows "hp_K (freezeHamiltonianParameters ham_par (fc_X fc)) = hp_K ham_par - fc_X fc
    \<and> (\<forall>I<fc_dimension fc. calculateFrozenCoreDiagonal fc ham_par (fc_X fc) ! I
          = frozen_core_energy ham_par (fc_X fc))
    \<and> (\<exists>H'. FrozenCoreCI_constructHamiltonian fc ham_par = Inr H'
          \<and> rows H' = rows H \<and> cols H' = cols H
          \<and> (\<forall>I J. coeff H' I J
                = coeff H I J + (if I = J \<and> I < fc_dimension fc
                                 then frozen_core_energy ham_par (fc_X fc) else 0)))"
  using assms
  by (simp add: hp_K_freeze size_t_sub_add_0 FrozenCoreCI_constructHamiltonian_def Let_def
      calculateFrozenCoreDiagonal_def add_asDiagonal_def frozen_core_value_closed_form)

definition example_ham_par :: HamiltonianParameters where
  "example_ham_par =
     HamiltonianParameters_ctor
       \<lparr>rows = 4, cols = 4, coeff = (\<lambda>i j. if i = j then 1 else 0)\<rparr>
       \<lparr>rows = 4, cols = 4, coeff = (\<lambda>i j. if i = j then 1 else 0)\<rparr>
       \<lparr>te_dim = 4, te_coeff = (\<lambda>i j k l. 1 / 2)\<rparr>
       \<lparr>rows = 4, cols = 4, coeff = (\<lambda>i j. if i = j then 1 else 0)\<rparr>"

definition example_builder :: HamiltonianBuilder where
  "example_builder =
     \<lparr>hb_constructHamiltonian = (\<lambda>ham_par. Inr (hp_h ham_par)),
      hb_matrixVectorProduct = (\<lambda>ham_par x diag. Inr (mat_vec (hp_h ham_par) x)),
      hb_calculateDiagonal = (\<lambda>ham_par. Inr (map (\<lambda>i. coeff (hp_h ham_par) i i) [0..<hp_K ham_par]))\<rparr>"

definition example_frozen_core :: FrozenCoreCI where
  "example_frozen_core = \<lparr>active_hamiltonian_builder = example_builder, fc_X = 1, fc_dimension = 3\<rparr>"

theorem frozen_core_shift_witness:
  "hp_K (freezeHamiltonianParameters example_ham_par 1) = 3
   \<and> calculateFrozenCoreDiagonal example_frozen_core example_ham_par 1 ! 2 = 5 / 2
   \<and> (\<exists>H'. FrozenCoreCI_constructHamiltonian example_frozen_core example_ham_par = Inr H'
          \<and> coeff H' 1 1 = coeff (hp_h (freezeHamiltonianParameters example_ham_par 1)) 1 1 + 5 / 2
          \<and> coeff H' 0 1 = coeff (hp_h (freezeHamiltonianParameters example_ham_par 1)) 0 1)"
proof -
  have X: "fc_X example_frozen_core = 1" "fc_dimension example_frozen_core = 3"
    "hp_K example_ham_par = 4"
    "hb_constructHamiltonian (active_hamiltonian_builder example_frozen_core)
       (freezeHamiltonianParameters example_ham_par 1)
     = Inr (hp_h (freezeHamiltonianParameters example_ham_par 1))"
    by (simp_all add: example_frozen_core_def example_builder_def example_ham_par_def
        HamiltonianParameters_ctor_def get_dim_def)
  have E: "frozen_core_energy example_ham_par 1 = 5 / 2"
    by (simp add: frozen_core_energy_def example_ham_par_def HamiltonianParameters_ctor_def)
  show ?thesis
    using frozen_core_shift [of example_frozen_core example_ham_par
        "hp_h (freezeHamiltonianParameters example_ham_par 1)"] X E
    by auto
qed


section \<open>The vertex weights are binomial coefficients\<close>

text \<open>
  The weight that the addressing scheme assigns to the vertex \<open>(p, m)\<close> of the graph of
  a Fock space of \<open>k\<close> orbitals and \<open>n\<close> electrons: the binomial coefficient of
  \<open>p\<close> over \<open>m\<close> inside the band \<open>m \<le> p \<le> k - n + m\<close> of the graph, and 0 outside.
\<close>

definition weight_spec :: "nat \<Rightarrow> nat \<Rightarrow> nat \<Rightarrow> nat \<Rightarrow> size_t" where
  "weight_spec k n p m = (if m \<le> p \<and> p \<le> k - n + m then of_nat (p choose m) else 0)"

text \<open>
  The table has \<open>k + 1\<close> rows of \<open>n + 1\<close> weights.
\<close>

definition table_shape :: "nat \<Rightarrow> nat \<Rightarrow> size_t list list \<Rightarrow> bool" where
  "table_shape k n W = (length W = k + 1 \<and> (\<forall>p\<le>k. length (W ! p) = n + 1))"

text \<open>
  The state of the table while the constructor fills it: the columns before \<open>m\<close> are
  final, column \<open>m\<close> is final up to row \<open>p\<close>, and everything else is still 0.
\<close>

definition table_progress :: "nat \<Rightarrow> nat \<Rightarrow> nat \<Rightarrow> nat \<Rightarrow> size_t list list \<Rightarrow> bool" where
  "table_progress k n M j W =
     (table_shape k n W
      \<and> (\<forall>p\<le>k. \<forall>m\<le>n. W ! p ! m
            = (if m < M \<or> (m = M \<and> p < j) then weight_spec k n p m else 0)))"

lemma size_t_sub_add_eq:
  assumes "n \<le> k" and "k - n + c < 2 ^ 64"
  shows "size_t_sub_add k n c = k - n + c"
proof -
  have 1: "int k - int n + int c = int (k - n + c)"
    using assms(1) by simp
  have "int (k - n + c) < int (2 ^ 64)"
    using assms(2) by (simp only: of_nat_less_iff)
  then have 2: "int (k - n + c) mod 2 ^ 64 = int (k - n + c)"
    by (intro mod_pos_pos_trivial) simp_all
  have "size_t_sub_add k n c = nat (int (k - n + c))"
    unfolding size_t_sub_add_def by (simp only: 1 2)
  then show ?thesis
    by (simp only: nat_int)
qed

lemma set_weight_shape:
  assumes "table_shape k n W"
  shows "table_shape k n (set_weight W p m v)"
proof (cases "p < length W")
  case True
  with assms show ?thesis
    by (auto simp: table_shape_def set_weight_def nth_list_update)
next
  case False
  with assms show ?thesis
    by (simp add: table_shape_def set_weight_def)
qed

lemma set_weight_nth:
  assumes "table_shape k n W" and "p \<le> k" and "m \<le> n" and "p' \<le> k"
  shows "set_weight W p m v ! p' ! m' = (if p' = p \<and> m' = m then v else W ! p' ! m')"
  using assms by (auto simp: table_shape_def set_weight_def nth_list_update)

lemma first_column_progress:
  assumes "n \<le> k" and "k < 2 ^ 63"
  shows "table_progress k n 1 0 (first_column k n (replicate (k + 1) (replicate (n + 1) 0)))"
proof -
  let ?W0 = "replicate (k + 1) (replicate (n + 1) (0 :: size_t))"
  have inv: "table_shape k n (fold (\<lambda>p W. set_weight W p 0 1) [0..<j] ?W0)
      \<and> (\<forall>p\<le>k. \<forall>m\<le>n. fold (\<lambda>p W. set_weight W p 0 1) [0..<j] ?W0 ! p ! m
            = (if m = 0 \<and> p < j then 1 else 0))" if "j \<le> k + 1" for j
    using that
  proof (induction j)
    case 0
    then show ?case by (simp add: table_shape_def del: replicate.simps)
  next
    case (Suc j)
    then have IH: "table_shape k n (fold (\<lambda>p W. set_weight W p 0 1) [0..<j] ?W0)"
      "\<forall>p\<le>k. \<forall>m\<le>n. fold (\<lambda>p W. set_weight W p 0 1) [0..<j] ?W0 ! p ! m
            = (if m = 0 \<and> p < j then 1 else 0)"
      by simp_all
    from Suc.prems have j: "j \<le> k" by simp
    show ?case
      using IH j by (auto simp: set_weight_shape set_weight_nth less_Suc_eq)
  qed
  have "k - n + 1 \<le> k + 1" "k + 1 < 2 ^ 64"
    using assms by simp_all
  then have "k - n + 1 < 2 ^ 64"
    by (rule le_less_trans)
  then have b: "size_t_sub_add k n 1 = k - n + 1"
    using assms by (intro size_t_sub_add_eq)
  have "k - n + 1 \<le> k + 1" by simp
  from inv [OF this] show ?thesis
    unfolding table_progress_def first_column_def b
    by (auto simp: weight_spec_def)
qed

lemma table_progress_step:
  assumes P: "table_progress k n M j W" and M: "1 \<le> M" "M \<le> n" and j: "M \<le> j" "j \<le> k - n + M"
    and nk: "n \<le> k"
  shows "table_progress k n M (Suc j)
           (set_weight W j M (W ! (j - 1) ! M + W ! (j - 1) ! (M - 1)))"
proof -
  have shape: "table_shape k n W" and
    val: "\<And>p m. p \<le> k \<Longrightarrow> m \<le> n \<Longrightarrow>
        W ! p ! m = (if m < M \<or> (m = M \<and> p < j) then weight_spec k n p m else 0)"
    using P by (auto simp: table_progress_def)
  have jk: "j \<le> k" using j M nk by simp
  have j1: "j - 1 \<le> k" using jk by simp
  have a: "W ! (j - 1) ! M = weight_spec k n (j - 1) M"
    using val [OF j1 M(2)] j M by (auto simp: weight_spec_def)
  have b: "W ! (j - 1) ! (M - 1) = weight_spec k n (j - 1) (M - 1)"
    using val [OF j1, of "M - 1"] M by auto
  have pascal: "weight_spec k n (j - 1) M + weight_spec k n (j - 1) (M - 1) = weight_spec k n j M"
  proof (cases "j = M")
    case True
    obtain M' where M': "M = Suc M'"
      using M by (cases M) auto
    show ?thesis
      unfolding True M' by (simp add: weight_spec_def)
  next
    case False
    then obtain j' M' where jm: "j = Suc j'" "M = Suc M'" "M' \<le> j'" "Suc M' \<le> j'"
      using j M by (cases j; cases M) auto
    have le: "j' \<le> k - n + M'" "j' \<le> k - n + Suc M'"
      using j jm by simp_all
    have "weight_spec k n j' (Suc M') = of_nat (j' choose Suc M')"
      "weight_spec k n j' M' = of_nat (j' choose M')"
      "weight_spec k n (Suc j') (Suc M') = of_nat (Suc j' choose Suc M')"
      unfolding weight_spec_def using le jm j by simp_all
    then show ?thesis
      unfolding jm by simp
  qed
  show ?thesis
    unfolding table_progress_def
  proof (intro conjI allI impI)
    show "table_shape k n (set_weight W j M (W ! (j - 1) ! M + W ! (j - 1) ! (M - 1)))"
      by (rule set_weight_shape [OF shape])
  next
    fix p m assume pm: "p \<le> k" "m \<le> n"
    show "set_weight W j M (W ! (j - 1) ! M + W ! (j - 1) ! (M - 1)) ! p ! m
        = (if m < M \<or> m = M \<and> p < Suc j then weight_spec k n p m else 0)"
    proof (cases "p = j \<and> m = M")
      case True
      then show ?thesis
        using set_weight_nth [OF shape jk M(2) pm(1), of _ m] a b pascal by simp
    next
      case False
      then have "set_weight W j M (W ! (j - 1) ! M + W ! (j - 1) ! (M - 1)) ! p ! m = W ! p ! m"
        using set_weight_nth [OF shape jk M(2) pm(1), of _ m] by auto
      moreover have "(m < M \<or> m = M \<and> p < Suc j) = (m < M \<or> m = M \<and> p < j)"
        using False by (auto simp: less_Suc_eq)
      ultimately show ?thesis
        using val [OF pm] by simp
    qed
  qed
qed

lemma recurrence_column_progress:
  assumes P: "table_progress k n M 0 W" and M: "1 \<le> M" "M \<le> n" and nk: "n \<le> k" "k < 2 ^ 63"
  shows "table_progress k n (Suc M) 0 (recurrence_column k n M W)"
proof -
  let ?f = "\<lambda>p W. set_weight W p M (W ! (p - 1) ! M + W ! (p - 1) ! (M - 1))"
  have P0: "table_progress k n M M W"
    using P by (auto simp: table_progress_def weight_spec_def)
  have inv: "table_progress k n M (M + d) (fold ?f [M..<M + d] W)" if "M + d \<le> k - n + M + 1" for d
    using that
  proof (induction d)
    case 0
    then show ?case using P0 by simp
  next
    case (Suc d)
    then have "table_progress k n M (M + d) (fold ?f [M..<M + d] W)" by simp
    from table_progress_step [OF this M] Suc.prems nk(1) show ?case by simp
  qed
  have "k - n + M \<le> k" "k < 2 ^ 64"
    using M nk by simp_all
  then have "k - n + M < 2 ^ 64"
    by (rule le_less_trans)
  then have b: "size_t_sub_add k n M = k - n + M"
    using nk by (intro size_t_sub_add_eq)
  have "table_progress k n M (k - n + M + 1) (recurrence_column k n M W)"
    using inv [of "k - n + 1"] by (simp add: recurrence_column_def b add.commute add.left_commute)
  then show ?thesis
    by (auto simp: table_progress_def weight_spec_def)
qed

lemma make_vertex_weights_progress:
  assumes nk: "n \<le> k" "k < 2 ^ 63"
  shows "table_progress k n (Suc n) 0 (make_vertex_weights k n)"
proof -
  have inv: "table_progress k n (Suc M) 0
      (fold (recurrence_column k n) [1..<Suc M] (first_column k n (replicate (k + 1) (replicate (n + 1) 0))))"
    if "M \<le> n" for M
    using that
  proof (induction M)
    case 0
    then show ?case using first_column_progress [OF nk] by simp
  next
    case (Suc M)
    then show ?case
      using recurrence_column_progress [of k n "Suc M"] nk by simp
  qed
  from inv [of n] show ?thesis
    by (simp add: make_vertex_weights_def)
qed

lemma vertex_weights_binomial:
  assumes "n \<le> k" "k < 2 ^ 63" "p \<le> k" "m \<le> n"
  shows "make_vertex_weights k n ! p ! m = weight_spec k n p m"
  using make_vertex_weights_progress [OF assms(1,2)] assms(3,4)
  by (auto simp: table_progress_def)

section \<open>Addresses as sums of binomial coefficients\<close>

text \<open>
  The address of an ONV as a sum of binomial coefficients: the electron number
  \<open>i + 1\<close> (counted from 1), in orbital \<open>p\<close>, contributes the binomial coefficient of
  \<open>p\<close> over \<open>i + 1\<close>. The list holds the occupied orbitals in ascending order.
\<close>

fun rank_from :: "nat \<Rightarrow> nat list \<Rightarrow> nat" where
  "rank_from i [] = 0"
| "rank_from i (p # ps) = (p choose (i + 1)) + rank_from (i + 1) ps"

lemma rank_from_append:
  "rank_from i (xs @ ys) = rank_from i xs + rank_from (i + length xs) ys"
  by (induction xs arbitrary: i) simp_all

lemma rank_from_snoc:
  "rank_from i (xs @ [p]) = rank_from i xs + (p choose (i + length xs + 1))"
  by (simp add: rank_from_append)

lemma choose_mono:
  assumes "n \<le> m"
  shows "n choose k \<le> m choose k"
proof -
  have step: "N choose k \<le> Suc N choose k" for N
    by (cases k) simp_all
  have "n choose k \<le> (n + d) choose k" for d
  proof (induction d)
    case 0
    then show ?case by simp
  next
    case (Suc d)
    then show ?case
      using step [of "n + d"] by simp
  qed
  from this [of "m - n"] assms show ?thesis by simp
qed

lemma rank_bound:
  assumes "sorted_wrt (<) xs" and "\<forall>x\<in>set xs. x < k"
  shows "rank_from 0 xs < k choose length xs"
  using assms
proof (induction xs arbitrary: k rule: rev_induct)
  case Nil
  then show ?case by simp
next
  case (snoc p xs)
  have sorted: "sorted_wrt (<) xs" and below: "\<forall>x\<in>set xs. x < p" and pk: "p < k"
    using snoc.prems by (auto simp: sorted_wrt_append)
  have "rank_from 0 xs < p choose length xs"
    by (rule snoc.IH [OF sorted below])
  then have "rank_from 0 (xs @ [p]) < (p choose length xs) + (p choose Suc (length xs))"
    by (simp add: rank_from_snoc)
  also have "\<dots> = Suc p choose Suc (length xs)"
    by simp
  also have "\<dots> \<le> k choose Suc (length xs)"
    using pk by (intro choose_mono) simp
  finally show ?case by simp
qed

lemma rank_lower:
  "(p choose (length xs + 1)) \<le> rank_from 0 (xs @ [p])"
  by (simp add: rank_from_snoc)

lemma rank_inj:
  assumes "sorted_wrt (<) xs" and "sorted_wrt (<) ys" and "length xs = length ys"
    and "rank_from 0 xs = rank_from 0 ys"
  shows "xs = ys"
  using assms
proof (induction xs arbitrary: ys rule: rev_induct)
  case Nil
  then show ?case by simp
next
  case (snoc p xs)
  from snoc.prems(3) obtain q ys' where ys: "ys = ys' @ [q]"
    by (cases ys rule: rev_cases) auto
  have len: "length xs = length ys'"
    using snoc.prems(3) ys by simp
  have sx: "sorted_wrt (<) xs" "\<forall>x\<in>set xs. x < p"
    using snoc.prems(1) by (auto simp: sorted_wrt_append)
  have sy: "sorted_wrt (<) ys'" "\<forall>x\<in>set ys'. x < q"
    using snoc.prems(2) ys by (auto simp: sorted_wrt_append)
  have less: "rank_from 0 (as @ [u]) < rank_from 0 (bs @ [v])"
    if "sorted_wrt (<) (as @ [u])" "u < v" "length as = length bs" for as bs u v
  proof -
    have "\<forall>x\<in>set (as @ [u]). x < Suc u"
      using that(1) by (auto simp: sorted_wrt_append less_Suc_eq)
    from rank_bound [OF that(1) this]
    have "rank_from 0 (as @ [u]) < Suc u choose Suc (length as)" by simp
    also have "\<dots> \<le> v choose Suc (length as)"
      using that(2) by (intro choose_mono) simp
    also have "\<dots> \<le> rank_from 0 (bs @ [v])"
      using rank_lower [of v bs] that(3) by simp
    finally show ?thesis .
  qed
  have pq: "p = q"
  proof (rule ccontr)
    assume "p \<noteq> q"
    then consider "p < q" | "q < p" by linarith
    then show False
    proof cases
      case 1
      from less [OF snoc.prems(1) 1 len] snoc.prems(4) ys show False by simp
    next
      case 2
      from less [OF snoc.prems(2) [unfolded ys] 2 len [symmetric]] snoc.prems(4) ys
      show False by simp
    qed
  qed
  have "rank_from 0 xs = rank_from 0 ys'"
    using snoc.prems(4) ys pq len by (simp add: rank_from_snoc)
  from snoc.IH [OF sx(1) sy(1) len this] pq ys show ?case by simp
qed

lemma hockey_stick:
  "rank_from i [b + i..<b + i + a] + (b + i choose i) = (b + i + a) choose (i + a)"
proof (induction a arbitrary: i)
  case 0
  then show ?case by simp
next
  case (Suc a)
  have "[b + i..<b + i + Suc a] = (b + i) # [b + Suc i..<b + Suc i + a]"
    by (simp add: upt_rec)
  then have "rank_from i [b + i..<b + i + Suc a] + (b + i choose i)
      = rank_from (Suc i) [b + Suc i..<b + Suc i + a] + ((b + i choose Suc i) + (b + i choose i))"
    by simp
  also have "(b + i choose Suc i) + (b + i choose i) = (b + Suc i choose Suc i)"
    by simp
  finally show ?case
    using Suc.IH [of "Suc i"] by simp
qed

lemma rank_run:
  "rank_from 0 [b..<b + a] + 1 = (b + a) choose a"
  using hockey_stick [of 0 b a] by simp

lemma rank_initial:
  "rank_from i [i..<i + a] = 0"
proof (induction a arbitrary: i)
  case 0
  then show ?case by simp
next
  case (Suc a)
  have "[i..<i + Suc a] = i # [Suc i..<Suc i + a]"
    by (simp add: upt_rec)
  then show ?case
    using Suc.IH [of "Suc i"] by simp
qed

section \<open>The next permutation of a bit pattern\<close>

lemma ctz_nat_least:
  assumes "n \<noteq> 0"
  shows "bit n (ctz_nat n) \<and> (\<forall>i<ctz_nat n. \<not> bit n i)"
  using assms
proof (induction n rule: ctz_nat.induct)
  case (1 n)
  show ?case
  proof (cases "odd n")
    case True
    then show ?thesis by (simp add: ctz_nat.simps [of n] bit_0)
  next
    case False
    with "1.prems" have half: "n div 2 \<noteq> 0" by presburger
    have IH: "bit (n div 2) (ctz_nat (n div 2))" "\<forall>i<ctz_nat (n div 2). \<not> bit (n div 2) i"
      using "1.IH" "1.prems" False half by simp_all
    have c: "ctz_nat n = Suc (ctz_nat (n div 2))"
      using False "1.prems" by (simp add: ctz_nat.simps [of n])
    have "\<not> bit n i" if "i < Suc (ctz_nat (n div 2))" for i
    proof (cases i)
      case 0
      then show ?thesis using False by (simp add: bit_0)
    next
      case (Suc j)
      then show ?thesis using IH(2) that by (simp add: bit_Suc)
    qed
    then show ?thesis
      using IH(1) by (simp add: c bit_Suc)
  qed
qed

lemma builtin_ctzl_eq:
  assumes "bit x b" and "\<forall>i<b. \<not> bit x i"
  shows "builtin_ctzl x = b"
proof -
  have "unat x \<noteq> 0"
    using assms(1) by (auto simp: unat_eq_0)
  from ctz_nat_least [OF this]
  have c: "bit x (ctz_nat (unat x))" "\<forall>i<ctz_nat (unat x). \<not> bit x i"
    by (simp_all add: bit_unsigned_iff)
  have "\<not> ctz_nat (unat x) < b" using assms(2) c(1) by blast
  moreover have "\<not> b < ctz_nat (unat x)" using assms(1) c(2) by blast
  ultimately show ?thesis
    by (simp add: builtin_ctzl_def)
qed

lemma bit_shifted_mask:
  "bit (push_bit b (mask a) :: size_t) j \<longleftrightarrow> b \<le> j \<and> j < a + b \<and> j < 64"
  by (auto simp: bit_push_bit_iff bit_mask_iff)

lemma bit_mask_size_t:
  "bit (mask n :: size_t) j \<longleftrightarrow> j < n \<and> j < 64"
  by (auto simp: bit_mask_iff)

lemma bit_single:
  "bit (2 ^ n :: size_t) j \<longleftrightarrow> j = n \<and> n < 64"
  by (auto simp: bit_exp_iff)

lemma gosper:
  fixes x :: size_t
  assumes a: "1 \<le> a" and ab: "a + b < 64"
    and low: "\<forall>i<b. \<not> bit x i" and run: "\<forall>i. b \<le> i \<and> i < a + b \<longrightarrow> bit x i"
    and gap: "\<not> bit x (a + b)"
  shows "bit (ulongNextPermutation x) i \<longleftrightarrow> i < a - 1 \<or> i = a + b \<or> (a + b < i \<and> bit x i)"
proof -
  define c where "c = a + b + 1"
  define X :: size_t where "X = push_bit c (drop_bit c x)"
  define L :: size_t where "L = push_bit b (mask a)"
  define L' :: size_t where "L' = push_bit (b + 1) (mask (a - 1))"
  define P :: size_t where "P = push_bit (a + b) 1"
  have bitX: "bit X j \<longleftrightarrow> a + b < j \<and> bit x j" for j
  proof -
    have "bit X j \<longleftrightarrow> c \<le> j \<and> j < 64 \<and> bit (drop_bit c x) (j - c)"
      by (simp add: X_def bit_push_bit_iff)
    also have "\<dots> \<longleftrightarrow> c \<le> j \<and> j < 64 \<and> bit x j"
      by (auto simp: bit_drop_bit_eq)
    also have "\<dots> \<longleftrightarrow> c \<le> j \<and> bit x j"
      using bit_imp_le_length [of x j] by auto
    also have "c \<le> j \<longleftrightarrow> a + b < j"
      unfolding c_def by arith
    finally show ?thesis .
  qed
  have bitL: "bit L j \<longleftrightarrow> b \<le> j \<and> j < a + b" for j
    using ab by (auto simp: L_def bit_shifted_mask)
  have bitL': "bit L' j \<longleftrightarrow> b < j \<and> j < a + b" for j
    using ab a bit_shifted_mask [of "b + 1" "a - 1" j] by (auto simp: L'_def)
  have bitP: "bit P j \<longleftrightarrow> j = a + b" for j
    using ab by (auto simp: P_def bit_single)
  have bitM: "bit (mask n :: size_t) j \<longleftrightarrow> j < n" if "n < 64" for n j
    using that by (auto simp: bit_mask_size_t)
  have x: "x = X OR L"
  proof (rule bit_word_eqI)
    fix j assume "j < LENGTH(64)"
    have "bit x j \<longleftrightarrow> (a + b < j \<and> bit x j) \<or> (b \<le> j \<and> j < a + b)"
      using low run gap by (metis leI linorder_neqE_nat)
    then show "bit x j = bit (X OR L) j"
      by (simp add: bit_or_iff bitX bitL)
  qed
  have x_sum: "x = X + L"
    by (subst x, rule disjunctive_add [symmetric]) (auto simp: bitX bitL)
  have ctz: "builtin_ctzl x = b"
    using a low run by (intro builtin_ctzl_eq) auto
  have m1: "L - 1 = L' + mask b"
  proof -
    obtain a' where a': "a = Suc a'" using a by (cases a) auto
    show ?thesis
      by (simp add: L_def L'_def a' push_bit_eq_mult mask_eq_exp_minus_1 algebra_simps)
  qed
  have m1_or: "L' + mask b = L' OR mask b"
    using ab by (intro disjunctive_add) (auto simp: bitL' bitM)
  have xm1: "x - 1 = X OR (L' OR mask b)"
  proof -
    have "x - 1 = X + (L - 1)"
      by (simp add: x_sum)
    also have "\<dots> = X + (L' OR mask b)"
      by (simp only: m1 m1_or)
    also have "\<dots> = X OR (L' OR mask b)"
      using ab by (intro disjunctive_add) (auto simp: bitX bitL' bitM bit_or_iff)
    finally show ?thesis .
  qed
  have t: "x OR (x - 1) = X OR mask (a + b)"
  proof (rule bit_word_eqI)
    fix j assume "j < LENGTH(64)"
    have "bit (x OR (x - 1)) j \<longleftrightarrow> bit x j \<or> bit (x - 1) j"
      by (simp only: bit_or_iff)
    also have "\<dots> \<longleftrightarrow> bit (X OR L) j \<or> bit (X OR (L' OR mask b)) j"
      using arg_cong [OF x, of "\<lambda>w. bit w j"] arg_cong [OF xm1, of "\<lambda>w. bit w j"]
      by (simp only:)
    also have "\<dots> \<longleftrightarrow> bit X j \<or> j < a + b"
      using ab by (auto simp: bit_or_iff bitL bitL' bitM)
    also have "\<dots> \<longleftrightarrow> bit (X OR mask (a + b)) j"
      using ab by (simp add: bit_or_iff bitM)
    finally show "bit (x OR (x - 1)) j = bit (X OR mask (a + b)) j" .
  qed
  have t_sum: "X OR mask (a + b) = X + mask (a + b)"
    using ab by (intro disjunctive_add [symmetric]) (auto simp: bitX bitM)
  have t1: "(X OR mask (a + b)) + 1 = X OR P"
  proof -
    have "(X OR mask (a + b)) + 1 = X + P"
      unfolding t_sum by (simp add: P_def mask_eq_exp_minus_1)
    also have "\<dots> = X OR P"
      by (rule disjunctive_add) (auto simp: bitX bitP)
    finally show ?thesis .
  qed
  have iso: "NOT (X OR mask (a + b)) AND (X OR P) = P"
  proof (rule bit_word_eqI)
    fix j assume "j < LENGTH(64)"
    then show "bit (NOT (X OR mask (a + b)) AND (X OR P)) j = bit P j"
      using ab by (auto simp: bit_and_iff bit_or_iff bit_not_iff bitX bitP bitM)
  qed
  have low_mask: "P - 1 = mask (a + b)"
    by (simp add: P_def mask_eq_exp_minus_1 push_bit_eq_mult)
  have shifted: "drop_bit (b + 1) (mask (a + b) :: size_t) = mask (a - 1)"
  proof (rule bit_word_eqI)
    fix j assume "j < LENGTH(64)"
    then show "bit (drop_bit (b + 1) (mask (a + b) :: size_t)) j = bit (mask (a - 1) :: size_t) j"
      using a ab by (auto simp: bit_drop_bit_eq bit_mask_size_t)
  qed
  have "ulongNextPermutation x = (X OR P) OR mask (a - 1)"
    unfolding ulongNextPermutation_def Let_def
    by (simp only: ctz t t1 iso low_mask shifted)
  then show ?thesis
    using ab a by (auto simp: bit_or_iff bitX bitP bitM)
qed

section \<open>Occupation lists and their successors\<close>

text \<open>
  The bit pattern \<open>rep\<close> has exactly the orbitals of the ascending list \<open>occ\<close> set.
\<close>

definition occupied :: "size_t \<Rightarrow> nat list \<Rightarrow> bool" where
  "occupied rep occ = (sorted_wrt (<) occ \<and> (\<forall>i. bit rep i \<longleftrightarrow> i \<in> set occ))"

lemma occupied_less_64:
  assumes "occupied rep occ" and "p \<in> set occ"
  shows "p < 64"
  using assms bit_imp_le_length [of rep p] by (auto simp: occupied_def)

lemma updateOccupationIndices_occupied:
  assumes "occupied rep occ"
  shows "updateOccupationIndices rep = occ"
proof -
  have "sorted (filter (bit rep) [0..<64])" "distinct (filter (bit rep) [0..<64])"
    by (simp_all add: sorted_wrt_filter)
  moreover have "sorted occ" "distinct occ"
    using assms by (simp_all add: occupied_def strict_sorted_iff)
  moreover have "set (filter (bit rep) [0..<64]) = set occ"
    using assms occupied_less_64 [OF assms] by (auto simp: occupied_def)
  ultimately show ?thesis
    unfolding updateOccupationIndices_def by (intro sorted_distinct_set_unique)
qed

text \<open>
  The length of the run of consecutive orbitals at the start of an occupation list,
  and the occupation list of the next bit pattern with as many bits set: the run
  moves down to the orbitals \<open>0, 1, \<dots>\<close>, except for its last electron, which moves up
  by one orbital.
\<close>

fun run_length :: "nat list \<Rightarrow> nat" where
  "run_length [] = 0"
| "run_length [x] = 1"
| "run_length (x # y # ys) = (if y = Suc x then Suc (run_length (y # ys)) else 1)"

definition next_occ :: "nat list \<Rightarrow> nat list" where
  "next_occ occ =
     [0..<run_length occ - 1] @ [hd occ + run_length occ] @ drop (run_length occ) occ"

lemma run_length_structure:
  assumes "sorted_wrt (<) occ" and "occ \<noteq> []"
  shows "1 \<le> run_length occ \<and> run_length occ \<le> length occ
    \<and> take (run_length occ) occ = [hd occ..<hd occ + run_length occ]
    \<and> (\<forall>x\<in>set (drop (run_length occ) occ). hd occ + run_length occ < x)"
  using assms
proof (induction occ rule: run_length.induct)
  case 1
  then show ?case by simp
next
  case (2 x)
  then show ?case by (simp add: upt_rec)
next
  case (3 x y ys)
  show ?case
  proof (cases "y = Suc x")
    case True
    have "sorted_wrt (<) (y # ys)" using "3.prems" by simp
    from "3.IH" [OF True this] have IH: "1 \<le> run_length (y # ys)"
      "run_length (y # ys) \<le> length (y # ys)"
      "take (run_length (y # ys)) (y # ys) = [y..<y + run_length (y # ys)]"
      "\<forall>z\<in>set (drop (run_length (y # ys)) (y # ys)). y + run_length (y # ys) < z"
      by simp_all
    have "[x..<x + Suc (run_length (y # ys))] = x # [y..<y + run_length (y # ys)]"
      using True by (simp add: upt_rec)
    then show ?thesis
      using True IH by simp
  next
    case False
    have "\<forall>z\<in>set (y # ys). x < z" using "3.prems" by auto
    then have "\<forall>z\<in>set (y # ys). Suc x < z"
      using False "3.prems" by (auto simp: less_Suc_eq neq_commute intro: Suc_lessI) 
    then show ?thesis
      using False by (simp add: upt_rec)
  qed
qed

lemma occ_decompose:
  assumes "sorted_wrt (<) occ" and "occ \<noteq> []"
  shows "occ = [hd occ..<hd occ + run_length occ] @ drop (run_length occ) occ"
  using run_length_structure [OF assms] append_take_drop_id [of "run_length occ" occ] by simp

lemma rank_next_occ:
  assumes "sorted_wrt (<) occ" and "occ \<noteq> []"
  shows "rank_from 0 (next_occ occ) = rank_from 0 occ + 1"
proof -
  let ?a = "run_length occ" and ?b = "hd occ"
  have a: "1 \<le> ?a" using run_length_structure [OF assms] by simp
  have "rank_from 0 occ = rank_from 0 [?b..<?b + ?a] + rank_from ?a (drop ?a occ)"
    by (subst occ_decompose [OF assms]) (simp add: rank_from_append)
  moreover have "rank_from 0 (next_occ occ)
      = rank_from 0 [0..<0 + (?a - 1)] + ((?b + ?a) choose ?a) + rank_from ?a (drop ?a occ)"
    using a by (simp add: next_occ_def rank_from_append)
  moreover have "rank_from 0 [0..<0 + (?a - 1)] = 0"
    by (rule rank_initial)
  ultimately show ?thesis
    using rank_run [of ?b ?a] by simp
qed

lemma length_next_occ:
  assumes "sorted_wrt (<) occ" and "occ \<noteq> []"
  shows "length (next_occ occ) = length occ"
proof -
  have "1 \<le> run_length occ" "run_length occ \<le> length occ"
    using run_length_structure [OF assms] by simp_all
  then show ?thesis
    by (simp add: next_occ_def)
qed

lemma sorted_next_occ:
  assumes "sorted_wrt (<) occ" and "occ \<noteq> []"
  shows "sorted_wrt (<) (next_occ occ)"
proof -
  have "sorted_wrt (<) (drop (run_length occ) occ)"
    using assms(1) by (rule sorted_wrt_drop)
  then show ?thesis
    using run_length_structure [OF assms]
    by (auto simp: next_occ_def sorted_wrt_append)
qed

lemma next_occ_below:
  assumes sorted: "sorted_wrt (<) occ" and ne: "occ \<noteq> []" and below: "\<forall>x\<in>set occ. x < k"
    and not_last: "rank_from 0 occ + 1 < k choose length occ"
  shows "hd occ + run_length occ < k"
proof (rule ccontr)
  let ?a = "run_length occ" and ?b = "hd occ"
  assume "\<not> ?b + ?a < k"
  then have ge: "k \<le> ?b + ?a" by simp
  note s = run_length_structure [OF sorted ne]
  have "set (drop ?a occ) \<subseteq> set occ" by (rule set_drop_subset)
  then have "drop ?a occ = []"
    using s below ge by (cases "drop ?a occ") force+
  then have occ: "occ = [?b..<?b + ?a]" and len: "length occ = ?a"
    using occ_decompose [OF sorted ne] s by auto
  have "?b + ?a - 1 \<in> set occ"
    using s by (subst occ) auto
  then have "?b + ?a - 1 < k" using below by blast
  then have "?b + ?a = k" using ge s by linarith
  then have "rank_from 0 occ + 1 = k choose length occ"
    using rank_run [of ?b ?a] occ len by simp
  then show False using not_last by simp
qed

lemma next_occ_elements:
  assumes sorted: "sorted_wrt (<) occ" and ne: "occ \<noteq> []" and below: "\<forall>x\<in>set occ. x < k"
    and not_last: "rank_from 0 occ + 1 < k choose length occ"
  shows "\<forall>x\<in>set (next_occ occ). x < k"
proof -
  have "hd occ + run_length occ < k"
    by (rule next_occ_below [OF assms])
  moreover have "set (drop (run_length occ) occ) \<subseteq> set occ" by (rule set_drop_subset)
  ultimately show ?thesis
    using below by (auto simp: next_occ_def)
qed

lemma occupied_next:
  assumes occ: "occupied rep occ" and ne: "occ \<noteq> []" and room: "hd occ + run_length occ < 64"
  shows "occupied (ulongNextPermutation rep) (next_occ occ)"
proof -
  let ?a = "run_length occ" and ?b = "hd occ"
  have sorted: "sorted_wrt (<) occ" and bits: "\<And>i. bit rep i \<longleftrightarrow> i \<in> set occ"
    using occ by (simp_all add: occupied_def)
  note s = run_length_structure [OF sorted ne]
  have set_occ: "set occ = {?b..<?b + ?a} \<union> set (drop ?a occ)"
    by (subst occ_decompose [OF sorted ne]) simp
  have low: "\<forall>i<?b. \<not> bit rep i"
    using s by (auto simp: bits set_occ)
  have run: "\<forall>i. ?b \<le> i \<and> i < ?a + ?b \<longrightarrow> bit rep i"
    by (auto simp: bits set_occ)
  have gap: "\<not> bit rep (?a + ?b)"
    using s by (auto simp: bits set_occ add.commute)
  have ab: "?a + ?b < 64" using room by (simp add: add.commute)
  have a: "1 \<le> ?a" using s by simp
  have "bit (ulongNextPermutation rep) i \<longleftrightarrow> i \<in> set (next_occ occ)" for i
  proof -
    have "bit (ulongNextPermutation rep) i
        \<longleftrightarrow> i < ?a - 1 \<or> i = ?a + ?b \<or> (?a + ?b < i \<and> bit rep i)"
      by (rule gosper [OF a ab low run gap])
    also have "?a + ?b < i \<and> bit rep i \<longleftrightarrow> i \<in> set (drop ?a occ)"
      using s by (auto simp: bits set_occ add.commute)
    finally show ?thesis
      by (auto simp: next_occ_def add.commute)
  qed
  then show ?thesis
    using sorted_next_occ [OF sorted ne] by (simp add: occupied_def)
qed

section \<open>The ONV of address 0 and the traversal of the Fock space\<close>

text \<open>
  The Fock spaces that the results below are about: the vertex weights are the
  table that the constructor builds, the dimension is the binomial coefficient, the
  representations fit a 64-bit word, and \<open>calculateRepresentation\<close> only shifts the
  \<open>int\<close> literal 1 by less than 31 bits.
\<close>

definition well_formed :: "FockSpace \<Rightarrow> bool" where
  "well_formed fs \<longleftrightarrow>
     N fs \<le> K fs \<and> K fs \<le> 63 \<and> N fs \<le> 31
     \<and> vertex_weights fs = make_vertex_weights (K fs) (N fs)
     \<and> dim fs = K fs choose N fs"

lemma choose_less_size_t:
  assumes "p \<le> 63"
  shows "p choose m < 2 ^ 64"
proof -
  have "p choose m \<le> 2 ^ p"
    by (rule binomial_le_pow2)
  also have "(2 :: nat) ^ p \<le> 2 ^ 63"
    using assms by (intro power_increasing) auto
  also have "(2 :: nat) ^ 63 < 2 ^ 64"
    by simp
  finally show ?thesis .
qed

lemma unat_of_nat_choose:
  assumes "p \<le> 63"
  shows "unat (of_nat (p choose m) :: size_t) = p choose m"
  using choose_less_size_t [OF assms, of m] by (simp add: unsigned_of_nat take_bit_nat_eq_self)

lemma of_nat_choose_eq_0:
  assumes "p \<le> 63"
  shows "(of_nat (p choose m) :: size_t) = 0 \<longleftrightarrow> p < m"
proof -
  have "(of_nat (p choose m) :: size_t) = 0 \<longleftrightarrow> unat (of_nat (p choose m) :: size_t) = 0"
    by (simp add: unat_eq_0)
  also have "\<dots> \<longleftrightarrow> p choose m = 0"
    by (simp only: unat_of_nat_choose [OF assms])
  also have "\<dots> \<longleftrightarrow> p < m"
    by (simp add: binomial_eq_0_iff)
  finally show ?thesis .
qed

lemma weight_eq:
  assumes "well_formed fs" and "p \<le> K fs" and "m \<le> N fs"
  shows "get_vertex_weights fs p m = weight_spec (K fs) (N fs) p m"
proof -
  have "K fs < 2 ^ 63"
    using assms(1) by (simp add: well_formed_def)
  then show ?thesis
    using assms vertex_weights_binomial [of "N fs" "K fs" p m]
    by (simp add: well_formed_def get_vertex_weights_def)
qed

lemma weight_binomial:
  assumes wf: "well_formed fs" and "m \<le> N fs" and "m \<le> p + 1" and "p + N fs \<le> K fs + m"
  shows "get_vertex_weights fs p m = of_nat (p choose m)"
proof -
  have p: "p \<le> K fs"
    using assms by simp
  have "weight_spec (K fs) (N fs) p m = of_nat (p choose m)"
  proof (cases "m \<le> p")
    case True
    moreover have "p \<le> K fs - N fs + m"
      using assms by simp
    ultimately show ?thesis
      by (simp add: weight_spec_def)
  next
    case False
    then show ?thesis
      by (simp add: weight_spec_def binomial_eq_0)
  qed
  then show ?thesis
    using weight_eq [OF wf p assms(2)] by simp
qed

lemma int_one_shifted_eq:
  assumes "s < 31"
  shows "int_one_shifted s = 2 ^ s"
proof -
  have "scast (push_bit s (1 :: 32 word)) = (2 ^ s :: size_t)"
    by (rule bit_word_eqI) (use assms in \<open>auto simp: bit_simps\<close>)
  then show ?thesis
    using assms by (simp add: int_one_shifted_def)
qed

lemma take_phase:
  assumes wf: "well_formed fs" and "m \<le> N fs" and "1 \<le> m"
  shows "calculateRepresentation_loop fs m 0 rep m = rep OR mask m"
  using assms(2,3)
proof (induction m arbitrary: rep)
  case 0
  then show ?case by simp
next
  case (Suc p')
  have w: "get_vertex_weights fs p' (Suc p') = 0"
    using weight_binomial [OF wf, of "Suc p'" p'] Suc.prems wf
    by (simp add: well_formed_def binomial_eq_0)
  have s: "int_one_shifted p' = 2 ^ p'"
    using Suc.prems wf by (intro int_one_shifted_eq) (simp add: well_formed_def)
  show ?case
  proof (cases "p' = 0")
    case True
    then show ?thesis
      using w s by (simp add: mask_Suc_exp)
  next
    case False
    then have "calculateRepresentation_loop fs p' 0 (rep OR 2 ^ p') p' = (rep OR 2 ^ p') OR mask p'"
      using Suc.prems by (intro Suc.IH) auto
    then show ?thesis
      using False w s by (simp add: mask_Suc_exp ac_simps)
  qed
qed

lemma skip_phase:
  assumes wf: "well_formed fs" and "N fs \<le> p" and "p \<le> K fs" and "1 \<le> N fs"
  shows "calculateRepresentation_loop fs p 0 rep (N fs) = calculateRepresentation_loop fs (N fs) 0 rep (N fs)"
  using assms(2,3)
proof (induction p)
  case 0
  then show ?case by simp
next
  case (Suc p')
  show ?case
  proof (cases "N fs = Suc p'")
    case True
    then show ?thesis by simp
  next
    case False
    then have le: "N fs \<le> p'" and p': "p' \<le> 63"
      using Suc.prems wf by (auto simp: well_formed_def)
    have "get_vertex_weights fs p' (N fs) = of_nat (p' choose N fs)"
      using le Suc.prems by (intro weight_binomial [OF wf]) auto
    moreover have "(of_nat (p' choose N fs) :: size_t) \<noteq> 0"
      using of_nat_choose_eq_0 [OF p', of "N fs"] le by simp
    ultimately have "\<not> get_vertex_weights fs p' (N fs) \<le> 0"
      by simp
    then show ?thesis
      using Suc.IH le Suc.prems by simp
  qed
qed

lemma calculateRepresentation_0:
  assumes wf: "well_formed fs"
  shows "calculateRepresentation fs 0 = mask (N fs)"
proof (cases "N fs = 0")
  case True
  then show ?thesis
    by (simp add: calculateRepresentation_def)
next
  case False
  then have n: "1 \<le> N fs" by simp
  have "calculateRepresentation_loop fs (K fs) 0 0 (N fs) =
      calculateRepresentation_loop fs (N fs) 0 0 (N fs)"
    using wf n by (intro skip_phase) (auto simp: well_formed_def)
  also have "\<dots> = 0 OR mask (N fs)"
    using n by (intro take_phase [OF wf]) auto
  finally show ?thesis
    using False by (simp add: calculateRepresentation_def)
qed

lemma occupied_mask:
  assumes "n \<le> 64"
  shows "occupied (mask n) [0..<n]"
  using assms by (auto simp: occupied_def bit_mask_iff)

text \<open>
  The ONV that the loop over the addresses holds at address \<open>I\<close>: its occupation
  indices are the ascending list of the orbitals of its bit pattern, \<open>N\<close> orbitals
  below \<open>K\<close>, and their address is \<open>I\<close>.
\<close>

definition valid_onv :: "FockSpace \<Rightarrow> ONV \<Rightarrow> nat \<Rightarrow> bool" where
  "valid_onv fs onv I \<longleftrightarrow>
     occupied (unsigned_representation onv) (occupation_indices onv)
     \<and> length (occupation_indices onv) = N fs
     \<and> (\<forall>x\<in>set (occupation_indices onv). x < K fs)
     \<and> rank_from 0 (occupation_indices onv) = I"

lemma makeONV_0_valid:
  assumes wf: "well_formed fs"
  shows "valid_onv fs (makeONV fs 0) 0"
proof -
  have occ: "occupied (mask (N fs)) [0..<N fs]"
    using wf by (intro occupied_mask) (simp add: well_formed_def)
  have "updateOccupationIndices (mask (N fs)) = [0..<N fs]"
    by (rule updateOccupationIndices_occupied [OF occ])
  moreover have "rank_from 0 [0..<0 + N fs] = 0"
    by (rule rank_initial)
  ultimately show ?thesis
    using occ wf
    by (simp add: valid_onv_def makeONV_def ONV_ctor_def calculateRepresentation_0 [OF wf]
        well_formed_def)
qed

lemma setNextONV_valid:
  assumes wf: "well_formed fs" and v: "valid_onv fs onv I" and nxt: "Suc I < dim fs"
  shows "valid_onv fs (setNextONV fs onv) (Suc I)"
proof -
  define occ where "occ = occupation_indices onv"
  define rep where "rep = unsigned_representation onv"
  have occ: "occupied rep occ" and len: "length occ = N fs"
    and below: "\<forall>x\<in>set occ. x < K fs" and rank: "rank_from 0 occ = I"
    using v by (simp_all add: valid_onv_def occ_def rep_def)
  have sorted: "sorted_wrt (<) occ"
    using occ by (simp add: occupied_def)
  have d: "dim fs = K fs choose N fs"
    using wf by (simp add: well_formed_def)
  have ne: "occ \<noteq> []"
  proof
    assume "occ = []"
    then have "N fs = 0" using len by simp
    then show False using nxt d by simp
  qed
  have not_last: "rank_from 0 occ + 1 < K fs choose length occ"
    using nxt d rank len by simp
  have room: "hd occ + run_length occ < K fs"
    by (rule next_occ_below [OF sorted ne below not_last])
  then have "hd occ + run_length occ < 64"
    using wf by (simp add: well_formed_def)
  then have occ': "occupied (ulongNextPermutation rep) (next_occ occ)"
    by (rule occupied_next [OF occ ne])
  have upd: "updateOccupationIndices (ulongNextPermutation rep) = next_occ occ"
    by (rule updateOccupationIndices_occupied [OF occ'])
  have "length (next_occ occ) = N fs"
    using length_next_occ [OF sorted ne] len by simp
  moreover have "\<forall>x\<in>set (next_occ occ). x < K fs"
    by (rule next_occ_elements [OF sorted ne below not_last])
  moreover have "rank_from 0 (next_occ occ) = Suc I"
    using rank_next_occ [OF sorted ne] rank by simp
  ultimately show ?thesis
    using occ' upd
    by (simp add: valid_onv_def setNextONV_def set_representation_def rep_def [symmetric])
qed

text \<open>
  The ONV that the loops over the addresses hold in iteration \<open>I\<close>: \<open>makeONV(0)\<close>,
  advanced \<open>I\<close> times by \<open>setNextONV\<close>.
\<close>

definition onv_seq :: "FockSpace \<Rightarrow> nat \<Rightarrow> ONV" where
  "onv_seq fs I = (setNextONV fs ^^ I) (makeONV fs 0)"

lemma onv_seq_valid:
  assumes wf: "well_formed fs" and "I < dim fs"
  shows "valid_onv fs (onv_seq fs I) I"
  using assms(2)
proof (induction I)
  case 0
  then show ?case
    by (simp add: onv_seq_def makeONV_0_valid [OF wf])
next
  case (Suc I)
  then have "valid_onv fs (onv_seq fs I) I"
    by simp
  then have "valid_onv fs (setNextONV fs (onv_seq fs I)) (Suc I)"
    using Suc.prems by (rule setNextONV_valid [OF wf])
  then show ?case
    by (simp add: onv_seq_def)
qed

lemma fold_traversal:
  assumes "n \<le> d"
  shows "fold (\<lambda>I (acc, onv). (F I onv acc, if I < d - 1 then G onv else onv)) [0..<n] (acc0, onv0) =
    (fold (\<lambda>I acc. F I ((G ^^ I) onv0) acc) [0..<n] acc0, (G ^^ (min n (d - 1))) onv0)"
  using assms
proof (induction n)
  case 0
  then show ?case by simp
next
  case (Suc n)
  then have "min n (d - 1) = n" and "min (Suc n) (d - 1) = (if n < d - 1 then Suc n else n)"
    by auto
  then show ?case
    using Suc by simp
qed

section \<open>The couplings of an ONV\<close>

text \<open>
  The couplings that the \<open>while (q < K)\<close> loop visits, in the order of the loop:
  the orbital \<open>q\<close> and the address \<open>J\<close> of each round.
\<close>

function creation_trace :: "FockSpace \<Rightarrow> ONV \<Rightarrow> nat \<Rightarrow> size_t \<times> nat \<times> nat \<Rightarrow> (nat \<times> nat) list" where
  "creation_trace fs onv k (address, q, e2) =
     (if q < k
      then (q, unat (address + get_vertex_weights fs q e2))
             # creation_trace fs onv k (shiftUntilNextUnoccupiedOrbital 1 fs onv (address, q + 1, e2))
      else [])"
  by pat_completeness auto
termination
proof (relation "measure (\<lambda>(fs, onv, k, (address, q, e2)). k - q)", goal_cases)
  case 1
  then show ?case by simp
next
  case (2 fs onv k address q e2)
  obtain address' q' e2' where
    s: "shiftUntilNextUnoccupiedOrbital 1 fs onv (address, q + 1, e2) = (address', q', e2')"
    by (cases "shiftUntilNextUnoccupiedOrbital 1 fs onv (address, q + 1, e2)") auto
  have "q + 1 \<le> q'"
    using shiftUntilNextUnoccupiedOrbital_q [of "q + 1" 1 fs onv address e2] s by simp
  then show ?case
    using 2 s by simp
qed

declare creation_trace.simps [simp del]

lemma creation_loop_fold:
  "creation_loop body fs onv k st acc = fold (\<lambda>(q, J). body q J) (creation_trace fs onv k st) acc"
proof (induction fs onv k st arbitrary: acc rule: creation_trace.induct)
  case (1 fs onv k address q e2)
  show ?case
  proof (cases "q < k")
    case True
    show ?thesis
      using True "1.IH" [OF True]
      by (subst creation_loop.simps, subst creation_trace.simps) simp
  next
    case False
    then show ?thesis
      by (subst creation_loop.simps, subst creation_trace.simps) simp
  qed
qed

text \<open>
  The couplings \<open>(p, q, J)\<close> that the loop over the electrons visits for the ONV of
  address \<open>I\<close>: for the electron \<open>e1\<close>, and for all electrons.
\<close>

definition couplings_of :: "FockSpace \<Rightarrow> ONV \<Rightarrow> nat \<Rightarrow> nat \<Rightarrow> nat \<Rightarrow> (nat \<times> nat \<times> nat) list" where
  "couplings_of fs onv k I e1 =
     (let p = get_occupation_index onv e1;
          address = of_nat I - get_vertex_weights fs p (e1 + 1)
      in map (\<lambda>(q, J). (p, q, J))
           (creation_trace fs onv k
              (shiftUntilNextUnoccupiedOrbital 1 fs onv (address, p + 1, e1 + 1))))"

definition couplings :: "FockSpace \<Rightarrow> ONV \<Rightarrow> nat \<Rightarrow> nat \<Rightarrow> (nat \<times> nat \<times> nat) list" where
  "couplings fs onv k I = concat (map (couplings_of fs onv k I) [0..<N fs])"

lemma annihilation_loop_fold:
  "annihilation_loop body fs onv k I acc = fold (\<lambda>(p, q, J). body p q J) (couplings fs onv k I) acc"
proof -
  define step where "step = (\<lambda>e1 acc.
             let p = get_occupation_index onv e1;
                 address = of_nat I - get_vertex_weights fs p (e1 + 1)
             in creation_loop (body p) fs onv k
                  (shiftUntilNextUnoccupiedOrbital 1 fs onv (address, p + 1, e1 + 1)) acc)"
  have step: "step e1 acc = fold (\<lambda>(p, q, J). body p q J) (couplings_of fs onv k I e1) acc"
    for e1 acc
    by (simp add: step_def couplings_of_def Let_def creation_loop_fold fold_map comp_def
        case_prod_unfold)
  have "fold step es acc
    = fold (\<lambda>(p, q, J). body p q J) (concat (map (couplings_of fs onv k I) es)) acc" for es
    by (induction es arbitrary: acc) (simp_all add: step)
  then show ?thesis
    by (simp add: annihilation_loop_def couplings_def step_def)
qed

lemma strict_gap:
  assumes "sorted_wrt (<) xs" and "i \<le> j" and "j < length xs"
  shows "xs ! i + (j - i) \<le> (xs ! j :: nat)"
  using assms(2,3)
proof (induction j)
  case 0
  then show ?case by simp
next
  case (Suc j)
  show ?case
  proof (cases "i = Suc j")
    case True
    then show ?thesis by simp
  next
    case False
    then have "xs ! i + (j - i) \<le> xs ! j"
      using Suc by simp
    moreover have "xs ! j < xs ! Suc j"
      using assms(1) Suc.prems by (simp add: sorted_wrt_nth_less)
    ultimately show ?thesis
      using False Suc.prems by simp
  qed
qed

lemma nth_lower:
  assumes "sorted_wrt (<) xs" and "e < length xs"
  shows "e \<le> (xs ! e :: nat)"
  using strict_gap [OF assms(1), of 0 e] assms(2) by simp

lemma nth_upper:
  assumes "sorted_wrt (<) xs" and "\<forall>x\<in>set xs. x < (k :: nat)" and "e < length xs"
  shows "xs ! e + length xs \<le> k + e"
proof -
  have "xs ! e + (length xs - 1 - e) \<le> xs ! (length xs - 1)"
    using assms by (intro strict_gap) auto
  moreover have "xs ! (length xs - 1) < k"
    using assms by simp
  ultimately show ?thesis
    using assms(3) by simp
qed

text \<open>
  The invariant of the address, the orbital \<open>q\<close> and the electron count \<open>e\<close> after
  the electron \<open>e1\<close> has been annihilated: the orbitals of the electrons before \<open>e\<close>
  are below \<open>q\<close>, those of the other electrons are not, and the address accounts
  for the electrons between \<open>e1\<close> and \<open>e\<close>, which have moved down by one position.
  The state is ready for a creation when \<open>q\<close> is an unoccupied orbital.
\<close>

definition coupling_state :: "nat list \<Rightarrow> nat \<Rightarrow> size_t \<times> nat \<times> nat \<Rightarrow> bool" where
  "coupling_state occ e1 st =
     (case st of (address, q, e) \<Rightarrow>
        e1 < e \<and> e \<le> length occ
        \<and> (\<forall>x\<in>set (take e occ). x < q) \<and> (\<forall>x\<in>set (drop e occ). q \<le> x)
        \<and> address + of_nat (occ ! e1 choose (e1 + 1))
            + of_nat (rank_from (e1 + 1) (drop (e1 + 1) (take e occ)))
          = of_nat (rank_from 0 occ) + of_nat (rank_from e1 (drop (e1 + 1) (take e occ))))"

definition coupling_ready :: "nat list \<Rightarrow> nat \<Rightarrow> size_t \<times> nat \<times> nat \<Rightarrow> bool" where
  "coupling_ready occ e1 st =
     (coupling_state occ e1 st \<and> (case st of (address, q, e) \<Rightarrow> \<forall>x\<in>set (drop e occ). q < x))"

text \<open>
  \<open>occ\<close> is the occupation list of the ONV: ascending, \<open>N\<close> orbitals below \<open>K\<close>.
\<close>

definition onv_occ :: "FockSpace \<Rightarrow> ONV \<Rightarrow> nat list \<Rightarrow> bool" where
  "onv_occ fs onv occ \<longleftrightarrow>
     occupation_indices onv = occ \<and> sorted_wrt (<) occ \<and> length occ = N fs
     \<and> (\<forall>x\<in>set occ. x < K fs)"

lemma shift_step_state:
  assumes wf: "well_formed fs" and oo: "onv_occ fs onv occ"
    and st: "coupling_state occ e1 (address, q, e)"
    and e: "e < N fs" and q: "q = occ ! e"
  shows "coupling_state occ e1
    (address + (get_vertex_weights fs q (e + 1 - 1) - get_vertex_weights fs q (e + 1)), q + 1, e + 1)"
proof -
  have sorted: "sorted_wrt (<) occ" and len: "length occ = N fs" and below: "\<forall>x\<in>set occ. x < K fs"
    using oo by (simp_all add: onv_occ_def)
  have e1: "e1 < e" and tk: "\<forall>x\<in>set (take e occ). x < q" and dr: "\<forall>x\<in>set (drop e occ). q \<le> x"
    and eq: "address + of_nat (occ ! e1 choose (e1 + 1))
            + of_nat (rank_from (e1 + 1) (drop (e1 + 1) (take e occ)))
          = of_nat (rank_from 0 occ) + of_nat (rank_from e1 (drop (e1 + 1) (take e occ)))"
    using st by (simp_all add: coupling_state_def)
  define mid where "mid = drop (e1 + 1) (take e occ)"
  have lmid: "length mid = e - (e1 + 1)"
    using e len by (simp add: mid_def)
  have take_Suc: "take (e + 1) occ = take e occ @ [q]"
    using e len q by (simp add: take_Suc_conv_app_nth)
  have mid': "drop (e1 + 1) (take (e + 1) occ) = mid @ [q]"
    unfolding take_Suc mid_def using e1 e len by simp
  have lo: "e \<le> q"
    using nth_lower [OF sorted, of e] e len q by simp
  have hi: "q + N fs \<le> K fs + e"
    using nth_upper [OF sorted below, of e] e len q by simp
  have w1: "get_vertex_weights fs q e = of_nat (q choose e)"
    using e lo hi by (intro weight_binomial [OF wf]) auto
  have w2: "get_vertex_weights fs q (e + 1) = of_nat (q choose (e + 1))"
    using e lo hi by (intro weight_binomial [OF wf]) auto
  have r1: "rank_from e1 (mid @ [q]) = rank_from e1 mid + (q choose e)"
    using e1 by (simp add: rank_from_snoc lmid)
  have r2: "rank_from (e1 + 1) (mid @ [q]) = rank_from (e1 + 1) mid + (q choose (e + 1))"
    using e1 by (simp add: rank_from_snoc lmid)
  have drop_e: "drop e occ = q # drop (e + 1) occ"
    using e len q by (simp add: Cons_nth_drop_Suc)
  have "sorted_wrt (<) (drop e occ)"
    using sorted by (rule sorted_wrt_drop)
  then have dr': "\<forall>x\<in>set (drop (e + 1) occ). q + 1 \<le> x"
    unfolding drop_e by auto
  have tk': "\<forall>x\<in>set (take (e + 1) occ). x < q + 1"
    using tk unfolding take_Suc by auto
  have "address + (of_nat (q choose e) - of_nat (q choose (e + 1)))
          + of_nat (occ ! e1 choose (e1 + 1))
          + of_nat (rank_from (e1 + 1) mid + (q choose (e + 1)))
      = (address + of_nat (occ ! e1 choose (e1 + 1)) + of_nat (rank_from (e1 + 1) mid))
          + (of_nat (q choose e) :: size_t)"
    by simp
  also have "\<dots> = of_nat (rank_from 0 occ) + of_nat (rank_from e1 mid + (q choose e))"
    using eq by (simp add: mid_def)
  finally have eq': "address + (of_nat (q choose e) - of_nat (q choose (e + 1)))
          + of_nat (occ ! e1 choose (e1 + 1))
          + of_nat (rank_from (e1 + 1) mid + (q choose (e + 1)))
      = (of_nat (rank_from 0 occ) :: size_t) + of_nat (rank_from e1 mid + (q choose e))" .
  show ?thesis
    unfolding coupling_state_def prod.case mid' r1 r2
    using e1 e len tk' dr' eq' w1 w2 by simp
qed

lemma shift_exit_ready:
  assumes oo: "onv_occ fs onv occ"
    and st: "coupling_state occ e1 (address, q, e)"
    and exit: "\<not> (e < N fs \<and> q = occ ! e)"
  shows "coupling_ready occ e1 (address, q, e)"
proof -
  have sorted: "sorted_wrt (<) occ" and len: "length occ = N fs"
    using oo by (simp_all add: onv_occ_def)
  have dr: "\<forall>x\<in>set (drop e occ). q \<le> x"
    using st by (simp_all add: coupling_state_def)
  have "\<forall>x\<in>set (drop e occ). q < x"
  proof (cases "e < N fs")
    case True
    then have drop_e: "drop e occ = occ ! e # drop (e + 1) occ"
      using len by (simp add: Cons_nth_drop_Suc)
    have "sorted_wrt (<) (drop e occ)"
      using sorted by (rule sorted_wrt_drop)
    moreover have "q < occ ! e"
      using dr exit True unfolding drop_e by auto
    ultimately show ?thesis
      unfolding drop_e by auto
  next
    case False
    then show ?thesis
      using len by simp
  qed
  then show ?thesis
    using st by (simp add: coupling_ready_def)
qed

lemma shift_ready:
  assumes wf: "well_formed fs" and oo: "onv_occ fs onv occ"
    and st: "coupling_state occ e1 (address, q, e)"
  shows "coupling_ready occ e1 (shiftUntilNextUnoccupiedOrbital 1 fs onv (address, q, e))"
  using st
proof (induction "N fs - e" arbitrary: address q e rule: less_induct)
  case less
  have occ: "get_occupation_index onv e = occ ! e"
    using oo by (simp add: onv_occ_def get_occupation_index_def)
  show ?case
  proof (cases "e < N fs \<and> q = occ ! e")
    case True
    have "coupling_state occ e1
        (address + (get_vertex_weights fs q (e + 1 - 1) - get_vertex_weights fs q (e + 1)), q + 1, e + 1)"
      using True by (intro shift_step_state [OF wf oo less.prems]) auto
    moreover have "N fs - (e + 1) < N fs - e"
      using True by arith
    ultimately have "coupling_ready occ e1 (shiftUntilNextUnoccupiedOrbital 1 fs onv
        (address + (get_vertex_weights fs q (e + 1 - 1) - get_vertex_weights fs q (e + 1)), q + 1, e + 1))"
      using less.hyps by blast
    moreover have "shiftUntilNextUnoccupiedOrbital 1 fs onv (address, q, e) =
        shiftUntilNextUnoccupiedOrbital 1 fs onv
        (address + (get_vertex_weights fs q (e + 1 - 1) - get_vertex_weights fs q (e + 1)), q + 1, e + 1)"
      using True occ by (subst shiftUntilNextUnoccupiedOrbital.simps) simp
    ultimately show ?thesis
      by simp
  next
    case False
    then have "shiftUntilNextUnoccupiedOrbital 1 fs onv (address, q, e) = (address, q, e)"
      using occ by (subst shiftUntilNextUnoccupiedOrbital.simps) auto
    then show ?thesis
      using shift_exit_ready [OF oo less.prems False] by simp
  qed
qed

subsection \<open>The coupled addresses\<close>

lemma take_split:
  assumes "e1 < e" and "e \<le> length occ"
  shows "take e occ = take e1 occ @ [occ ! e1] @ drop (e1 + 1) (take e occ)"
proof -
  have "take e occ = take e1 (take e occ) @ take e occ ! e1 # drop (Suc e1) (take e occ)"
    using assms id_take_nth_drop [of e1 "take e occ"] by simp
  moreover have "take e1 (take e occ) = take e1 occ"
    using assms by (simp add: min_def)
  moreover have "take e occ ! e1 = occ ! e1"
    using assms by simp
  ultimately show ?thesis
    by simp
qed

lemma occ_split:
  assumes "e1 < e" and "e \<le> length occ"
  shows "occ = take e1 occ @ [occ ! e1] @ drop (e1 + 1) (take e occ) @ drop e occ"
proof -
  have "take e occ @ drop e occ = (take e1 occ @ [occ ! e1] @ drop (e1 + 1) (take e occ)) @ drop e occ"
    using take_split [OF assms] by simp
  then show ?thesis
    by simp
qed

lemma coupling_target:
  assumes wf: "well_formed fs" and oo: "onv_occ fs onv occ"
    and ready: "coupling_ready occ e1 (address, q, e)" and q: "q < K fs"
  shows "unat (address + get_vertex_weights fs q e) < K fs choose N fs
    \<and> unat (address + get_vertex_weights fs q e) \<noteq> rank_from 0 occ"
proof -
  have sorted: "sorted_wrt (<) occ" and len: "length occ = N fs" and below: "\<forall>x\<in>set occ. x < K fs"
    using oo by (simp_all add: onv_occ_def)
  define mid where "mid = drop (e1 + 1) (take e occ)"
  define A where "A = take e1 occ"
  define D where "D = drop e occ"
  define p where "p = occ ! e1"
  have e1: "e1 < e" and e: "e \<le> length occ"
    and tk: "\<forall>x\<in>set (take e occ). x < q" and dr: "\<forall>x\<in>set D. q < x"
    and eq: "address + of_nat (p choose (e1 + 1)) + of_nat (rank_from (e1 + 1) mid)
          = of_nat (rank_from 0 occ) + of_nat (rank_from e1 mid)"
    using ready by (simp_all add: coupling_ready_def coupling_state_def mid_def D_def p_def)
  have split: "occ = A @ [p] @ mid @ D"
    unfolding A_def p_def mid_def D_def by (rule occ_split [OF e1 e])
  have lA: "length A = e1" and lmid: "length mid = e - (e1 + 1)"
    using e1 e by (simp_all add: A_def mid_def)
  have take_e: "take e occ = A @ [p] @ mid"
    unfolding A_def p_def mid_def by (rule take_split [OF e1 e])
  define occ' where "occ' = A @ mid @ [q] @ D"
  have sorted_split: "sorted_wrt (<) (A @ [p] @ mid @ D)"
    using sorted split by simp
  have tkA: "\<forall>x\<in>set A. x < q" and tkp: "p < q" and tkm: "\<forall>x\<in>set mid. x < q"
    using tk unfolding take_e by auto
  have sorted': "sorted_wrt (<) occ'"
    unfolding occ'_def using sorted_split tkA tkm dr
    by (auto simp: sorted_wrt_append)
  have len': "length occ' = N fs"
  proof -
    have "length occ = length A + 1 + length mid + length D"
      by (subst split) simp
    then show ?thesis
      using len by (simp add: occ'_def)
  qed
  have below': "\<forall>x\<in>set occ'. x < K fs"
  proof -
    have "set occ' \<subseteq> insert q (set occ)"
      by (subst split) (auto simp: occ'_def)
    then show ?thesis
      using below q by auto
  qed
  have "p \<notin> set occ'"
    unfolding occ'_def using sorted_split tkp dr by (auto simp: sorted_wrt_append)
  moreover have "p \<in> set occ"
    by (subst split) simp
  ultimately have diff: "occ' \<noteq> occ"
    by auto
  have e_pos: "1 \<le> e"
    using e1 by simp
  have lo: "e \<le> q + 1"
  proof -
    have "e - 1 < length occ"
      using e e_pos by simp
    then have "e - 1 \<le> occ ! (e - 1)"
      by (rule nth_lower [OF sorted])
    moreover have "occ ! (e - 1) \<in> set (take e occ)"
      using e e_pos by (auto simp: in_set_conv_nth intro!: exI [of _ "e - 1"])
    ultimately show ?thesis
      using tk by fastforce
  qed
  have hi: "q + N fs \<le> K fs + e"
  proof (cases "e < length occ")
    case True
    then have "occ ! e \<in> set D"
      by (auto simp: D_def in_set_conv_nth intro!: exI [of _ 0])
    then have "q < occ ! e"
      using dr by simp
    moreover have "occ ! e + length occ \<le> K fs + e"
      by (rule nth_upper [OF sorted below True])
    ultimately show ?thesis
      using len by simp
  next
    case False
    then show ?thesis
      using e len q by simp
  qed
  have w: "get_vertex_weights fs q e = of_nat (q choose e)"
    using e len lo hi by (intro weight_binomial [OF wf]) auto
  have rank: "rank_from 0 occ = rank_from 0 A + (p choose (e1 + 1)) + rank_from (e1 + 1) mid + rank_from e D"
    using e1 by (subst split) (simp add: rank_from_append lA lmid)
  have rank': "rank_from 0 occ' = rank_from 0 A + rank_from e1 mid + (q choose e) + rank_from e D"
    using e1 by (simp add: occ'_def rank_from_append lA lmid)
  have nat_eq: "rank_from 0 occ' + (p choose (e1 + 1)) + rank_from (e1 + 1) mid
      = rank_from 0 occ + rank_from e1 mid + (q choose e)"
    using rank rank' by simp
  have "(of_nat (rank_from 0 occ') :: size_t) + of_nat (p choose (e1 + 1)) + of_nat (rank_from (e1 + 1) mid)
      = of_nat (rank_from 0 occ) + of_nat (rank_from e1 mid) + of_nat (q choose e)"
    using arg_cong [OF nat_eq, of "of_nat :: nat \<Rightarrow> size_t"] by simp
  also have "\<dots> = (address + of_nat (q choose e)) + of_nat (p choose (e1 + 1)) + of_nat (rank_from (e1 + 1) mid)"
    using eq by (simp add: algebra_simps)
  finally have J: "address + get_vertex_weights fs q e = of_nat (rank_from 0 occ')"
    using w by simp
  have bound: "rank_from 0 occ' < K fs choose N fs"
    using rank_bound [OF sorted' below'] len' by simp
  have "K fs \<le> 63"
    using wf by (simp add: well_formed_def)
  then have "K fs choose N fs < 2 ^ 64"
    by (rule choose_less_size_t)
  then have "unat (of_nat (rank_from 0 occ') :: size_t) = rank_from 0 occ'"
    using bound by (simp add: unsigned_of_nat take_bit_nat_eq_self)
  moreover have "rank_from 0 occ' \<noteq> rank_from 0 occ"
    using rank_inj [OF sorted' sorted] len len' diff by auto
  ultimately show ?thesis
    using bound J by simp
qed

lemma creation_trace_good:
  assumes wf: "well_formed fs" and oo: "onv_occ fs onv occ"
    and ready: "coupling_ready occ e1 (address, q, e)"
  shows "\<forall>(q', J)\<in>set (creation_trace fs onv (K fs) (address, q, e)).
    J < K fs choose N fs \<and> J \<noteq> rank_from 0 occ"
  using ready
proof (induction "K fs - q" arbitrary: address q e rule: less_induct)
  case less
  show ?case
  proof (cases "q < K fs")
    case True
    obtain address' q' e' where
      s: "shiftUntilNextUnoccupiedOrbital 1 fs onv (address, q + 1, e) = (address', q', e')"
      by (cases "shiftUntilNextUnoccupiedOrbital 1 fs onv (address, q + 1, e)") auto
    have "q + 1 \<le> q'"
      using shiftUntilNextUnoccupiedOrbital_q [of "q + 1" 1 fs onv address e] s by simp
    then have m: "K fs - q' < K fs - q"
      using True by arith
    have "coupling_state occ e1 (address, q + 1, e)"
      using less.prems by (auto simp: coupling_ready_def coupling_state_def)
    then have "coupling_ready occ e1 (address', q', e')"
      using shift_ready [OF wf oo, of e1 address "q + 1" e] s by simp
    then have rest: "\<forall>(q', J)\<in>set (creation_trace fs onv (K fs) (address', q', e')).
        J < K fs choose N fs \<and> J \<noteq> rank_from 0 occ"
      using less.hyps [OF m] by simp
    have here: "unat (address + get_vertex_weights fs q e) < K fs choose N fs
        \<and> unat (address + get_vertex_weights fs q e) \<noteq> rank_from 0 occ"
      by (rule coupling_target [OF wf oo less.prems True])
    have "creation_trace fs onv (K fs) (address, q, e) =
        (q, unat (address + get_vertex_weights fs q e)) # creation_trace fs onv (K fs) (address', q', e')"
      using True s by (subst creation_trace.simps) simp
    then show ?thesis
      using rest here by simp
  next
    case False
    then have "creation_trace fs onv (K fs) (address, q, e) = []"
      by (subst creation_trace.simps) simp
    then show ?thesis
      by simp
  qed
qed

lemma initial_state:
  assumes wf: "well_formed fs" and oo: "onv_occ fs onv occ" and e1: "e1 < N fs"
  shows "coupling_state occ e1
    (of_nat (rank_from 0 occ) - get_vertex_weights fs (occ ! e1) (e1 + 1), occ ! e1 + 1, e1 + 1)"
proof -
  have sorted: "sorted_wrt (<) occ" and len: "length occ = N fs" and below: "\<forall>x\<in>set occ. x < K fs"
    using oo by (simp_all add: onv_occ_def)
  have lo: "e1 \<le> occ ! e1"
    using nth_lower [OF sorted, of e1] e1 len by simp
  have hi: "occ ! e1 + N fs \<le> K fs + e1"
    using nth_upper [OF sorted below, of e1] e1 len by simp
  have w: "get_vertex_weights fs (occ ! e1) (e1 + 1) = of_nat (occ ! e1 choose (e1 + 1))"
    using e1 lo hi by (intro weight_binomial [OF wf]) auto
  have take_Suc: "take (e1 + 1) occ = take e1 occ @ [occ ! e1]"
    using e1 len by (simp add: take_Suc_conv_app_nth)
  have drop_e: "drop e1 occ = occ ! e1 # drop (e1 + 1) occ"
    using e1 len by (simp add: Cons_nth_drop_Suc)
  have "sorted_wrt (<) (take e1 occ @ drop e1 occ)"
    using sorted by simp
  then have s: "sorted_wrt (<) (take e1 occ @ occ ! e1 # drop (e1 + 1) occ)"
    unfolding drop_e .
  have tk: "\<forall>x\<in>set (take (e1 + 1) occ). x < occ ! e1 + 1"
    unfolding take_Suc using s by (auto simp: sorted_wrt_append)
  have dr: "\<forall>x\<in>set (drop (e1 + 1) occ). occ ! e1 + 1 \<le> x"
    using s by (auto simp: sorted_wrt_append)
  show ?thesis
    unfolding coupling_state_def prod.case
    using e1 len tk dr w by simp
qed

lemma couplings_good:
  assumes wf: "well_formed fs" and v: "valid_onv fs onv I"
  shows "\<forall>(p, q, J)\<in>set (couplings fs onv (K fs) I). J < dim fs \<and> J \<noteq> I"
proof -
  define occ where "occ = occupation_indices onv"
  have oo: "onv_occ fs onv occ" and rank: "rank_from 0 occ = I"
    using v by (simp_all add: valid_onv_def onv_occ_def occ_def occupied_def)
  have d: "dim fs = K fs choose N fs"
    using wf by (simp add: well_formed_def)
  have "\<forall>(p, q, J)\<in>set (couplings_of fs onv (K fs) I e1). J < dim fs \<and> J \<noteq> I"
    if e1: "e1 < N fs" for e1
  proof -
    have p: "get_occupation_index onv e1 = occ ! e1"
      by (simp add: get_occupation_index_def occ_def)
    obtain address q e where
      s: "shiftUntilNextUnoccupiedOrbital 1 fs onv
        (of_nat I - get_vertex_weights fs (occ ! e1) (e1 + 1), occ ! e1 + 1, e1 + 1) = (address, q, e)"
      by (cases "shiftUntilNextUnoccupiedOrbital 1 fs onv
        (of_nat I - get_vertex_weights fs (occ ! e1) (e1 + 1), occ ! e1 + 1, e1 + 1)") auto
    have "coupling_ready occ e1 (address, q, e)"
      using shift_ready [OF wf oo initial_state [OF wf oo e1]] s rank by simp
    then have "\<forall>(q', J)\<in>set (creation_trace fs onv (K fs) (address, q, e)).
        J < K fs choose N fs \<and> J \<noteq> rank_from 0 occ"
      by (rule creation_trace_good [OF wf oo])
    then show ?thesis
      using s rank d by (auto simp: couplings_of_def p)
  qed
  then show ?thesis
    by (auto simp: couplings_def)
qed

section \<open>Accumulating the matrix and the matrix-vector product\<close>

text \<open>
  One iteration of the loop over the addresses, as a function of the list of the
  couplings of each address: in \<open>constructHamiltonian\<close>, and in
  \<open>matrixVectorProduct\<close>.
\<close>

definition hamiltonian_step ::
  "(nat \<Rightarrow> nat \<Rightarrow> real) \<Rightarrow> (nat \<Rightarrow> (nat \<times> nat \<times> nat) list) \<Rightarrow> VectorX \<Rightarrow> nat \<Rightarrow> MatrixX \<Rightarrow> MatrixX" where
  "hamiltonian_step w cs d I r =
     fold (\<lambda>(p, q, J) r. add_to_coeff (add_to_coeff r I J (w p q)) J I (w p q)) (cs I)
       (add_to_coeff r I I (d ! I))"

definition matvec_step ::
  "(nat \<Rightarrow> nat \<Rightarrow> real) \<Rightarrow> (nat \<Rightarrow> (nat \<times> nat \<times> nat) list) \<Rightarrow> VectorX \<Rightarrow> nat \<Rightarrow> VectorX \<Rightarrow> VectorX" where
  "matvec_step w cs x I v =
     (case fold (\<lambda>(p, q, J) (double_I, v). (double_I + w p q * x ! J, v[J := v ! J + w p q * x ! I]))
             (cs I) (0, v) of
        (double_I, v') \<Rightarrow> v'[I := v' ! I + double_I])"

text \<open>
  Coefficient \<open>i\<close> of the product of a matrix with \<open>n\<close> columns and the vector \<open>x\<close>.
\<close>

definition row_sum :: "nat \<Rightarrow> VectorX \<Rightarrow> MatrixX \<Rightarrow> nat \<Rightarrow> real" where
  "row_sum n x r i = (\<Sum>k<n. coeff r i k * x ! k)"

lemma coeff_add_to_coeff:
  "coeff (add_to_coeff r i0 j0 v) i j = coeff r i j + (if i = i0 \<and> j = j0 then v else 0)"
  by (simp add: add_to_coeff_def)

lemma add_to_coeff_rows [simp]: "rows (add_to_coeff r i j v) = rows r"
  by (simp add: add_to_coeff_def)

lemma add_to_coeff_cols [simp]: "cols (add_to_coeff r i j v) = cols r"
  by (simp add: add_to_coeff_def)

lemma row_sum_add_to_coeff:
  assumes "j0 < n"
  shows "row_sum n x (add_to_coeff r i0 j0 v) i = row_sum n x r i + (if i = i0 then v * x ! j0 else 0)"
proof -
  have "row_sum n x (add_to_coeff r i0 j0 v) i
      = (\<Sum>k<n. coeff r i k * x ! k + (if k = j0 then (if i = i0 then v * x ! j0 else 0) else 0))"
    unfolding row_sum_def coeff_add_to_coeff
    by (rule sum.cong, simp, simp add: distrib_right)
  also have "\<dots> = row_sum n x r i + (\<Sum>k<n. if k = j0 then (if i = i0 then v * x ! j0 else 0) else 0)"
    by (simp add: sum.distrib row_sum_def)
  also have "(\<Sum>k<n. if k = j0 then (if i = i0 then v * x ! j0 else 0) else 0)
      = (if i = i0 then v * x ! j0 else 0)"
    using assms by (subst sum.delta) auto
  finally show ?thesis .
qed

text \<open>Symmetry\<close>

definition symmetric :: "MatrixX \<Rightarrow> bool" where
  "symmetric r \<longleftrightarrow> (\<forall>i j. coeff r i j = coeff r j i)"

lemma symmetric_couplings:
  assumes "symmetric r"
  shows "symmetric (fold (\<lambda>(p, q, J) r. add_to_coeff (add_to_coeff r I J (w p q)) J I (w p q)) cs r)"
  using assms
proof (induction cs arbitrary: r)
  case Nil
  then show ?case by simp
next
  case (Cons c cs)
  obtain p q J where c: "c = (p, q, J)"
    by (cases c) auto
  have "coeff (add_to_coeff (add_to_coeff r I J (w p q)) J I (w p q)) i j
      = coeff (add_to_coeff (add_to_coeff r I J (w p q)) J I (w p q)) j i" for i j
  proof -
    have h: "coeff r i j = coeff r j i"
      using Cons.prems by (simp add: symmetric_def)
    have a: "(i = I \<and> j = J) = (j = J \<and> i = I)"
      by (rule conj_commute)
    have b: "(i = J \<and> j = I) = (j = I \<and> i = J)"
      by (rule conj_commute)
    show ?thesis
      unfolding coeff_add_to_coeff h a b
      by (simp only: add.assoc add.commute add.left_commute)
  qed
  then have "symmetric (add_to_coeff (add_to_coeff r I J (w p q)) J I (w p q))"
    unfolding symmetric_def by blast
  then show ?case
    using Cons.IH by (simp add: c)
qed

lemma symmetric_step:
  assumes "symmetric r"
  shows "symmetric (hamiltonian_step w cs d I r)"
proof -
  have "coeff (add_to_coeff r I I (d ! I)) i j = coeff (add_to_coeff r I I (d ! I)) j i" for i j
  proof -
    have h: "coeff r i j = coeff r j i"
      using assms by (simp add: symmetric_def)
    have a: "(i = I \<and> j = I) = (j = I \<and> i = I)"
      by (rule conj_commute)
    show ?thesis
      unfolding coeff_add_to_coeff h a by (rule refl)
  qed
  then have "symmetric (add_to_coeff r I I (d ! I))"
    unfolding symmetric_def by blast
  then show ?thesis
    unfolding hamiltonian_step_def by (rule symmetric_couplings)
qed

lemma symmetric_fold:
  "symmetric (fold (hamiltonian_step w cs d) [0..<n] (Zero_matrix m m))"
proof (induction n)
  case 0
  then show ?case
    by (simp add: symmetric_def Zero_matrix_def)
next
  case (Suc n)
  then show ?case
    by (simp add: symmetric_step)
qed

text \<open>Sizes\<close>

lemma sizes_couplings:
  "rows (fold (\<lambda>(p, q, J) r. add_to_coeff (add_to_coeff r I J (w p q)) J I (w p q)) cs r) = rows r
   \<and> cols (fold (\<lambda>(p, q, J) r. add_to_coeff (add_to_coeff r I J (w p q)) J I (w p q)) cs r) = cols r"
  by (induction cs arbitrary: r) (auto simp: case_prod_unfold)

lemma sizes_fold:
  "rows (fold (hamiltonian_step w cs d) [0..<n] (Zero_matrix m m)) = m
   \<and> cols (fold (hamiltonian_step w cs d) [0..<n] (Zero_matrix m m)) = m"
proof (induction n)
  case 0
  then show ?case
    by (simp add: Zero_matrix_def)
next
  case (Suc n)
  then show ?case
    by (simp add: hamiltonian_step_def sizes_couplings)
qed

text \<open>The diagonal\<close>

lemma diagonal_couplings:
  assumes "\<forall>(p, q, J)\<in>set cs. J \<noteq> I"
  shows "coeff (fold (\<lambda>(p, q, J) r. add_to_coeff (add_to_coeff r I J (w p q)) J I (w p q)) cs r) i i
    = coeff r i i"
  using assms
proof (induction cs arbitrary: r)
  case Nil
  then show ?case by simp
next
  case (Cons c cs)
  obtain p q J where c: "c = (p, q, J)"
    by (cases c) auto
  have "J \<noteq> I"
    using Cons.prems c by simp
  then have "coeff (add_to_coeff (add_to_coeff r I J (w p q)) J I (w p q)) i i = coeff r i i"
    by (auto simp: coeff_add_to_coeff)
  moreover have "\<forall>(p, q, J)\<in>set cs. J \<noteq> I"
    using Cons.prems by simp
  ultimately show ?case
    using Cons.IH by (simp add: c)
qed

lemma diagonal_fold:
  assumes "\<forall>I<n. \<forall>(p, q, J)\<in>set (cs I). J \<noteq> I"
  shows "coeff (fold (hamiltonian_step w cs d) [0..<n] (Zero_matrix m m)) i i
    = (if i < n then d ! i else 0)"
  using assms
proof (induction n)
  case 0
  then show ?case
    by (simp add: Zero_matrix_def)
next
  case (Suc n)
  have "\<forall>(p, q, J)\<in>set (cs n). J \<noteq> n"
    using Suc.prems by simp
  then have "coeff (hamiltonian_step w cs d n r) i i = coeff (add_to_coeff r n n (d ! n)) i i" for r
    unfolding hamiltonian_step_def by (rule diagonal_couplings)
  moreover have "coeff (fold (hamiltonian_step w cs d) [0..<n] (Zero_matrix m m)) i i
      = (if i < n then d ! i else 0)"
    using Suc by simp
  ultimately show ?case
    by (auto simp: coeff_add_to_coeff)
qed

text \<open>The matrix-vector product\<close>

lemma matvec_couplings:
  assumes "\<forall>(p, q, J)\<in>set cs. J < n" and "I < n" and "length v = n"
    and "\<forall>i<n. v ! i + (if i = I then double_I else 0) + c i = row_sum n x r i"
  shows "case fold (\<lambda>(p, q, J) (double_I, v). (double_I + w p q * x ! J, v[J := v ! J + w p q * x ! I]))
             cs (double_I, v) of
           (double_I', v') \<Rightarrow> length v' = n
             \<and> (\<forall>i<n. v' ! i + (if i = I then double_I' else 0) + c i
                  = row_sum n x (fold (\<lambda>(p, q, J) r. add_to_coeff (add_to_coeff r I J (w p q)) J I (w p q)) cs r) i)"
  using assms
proof (induction cs arbitrary: double_I v r)
  case Nil
  then show ?case by simp
next
  case (Cons cpl cs)
  obtain p q J where cpl: "cpl = (p, q, J)"
    by (cases cpl) auto
  have J: "J < n"
    using Cons.prems(1) cpl by simp
  define v1 where "v1 = v[J := v ! J + w p q * x ! I]"
  define d1 where "d1 = double_I + w p q * x ! J"
  define r1 where "r1 = add_to_coeff (add_to_coeff r I J (w p q)) J I (w p q)"
  have len: "length v1 = n"
    using Cons.prems(3) by (simp add: v1_def)
  have rs: "row_sum n x r1 i = row_sum n x r i + (if i = I then w p q * x ! J else 0)
      + (if i = J then w p q * x ! I else 0)" for i
    unfolding r1_def using J Cons.prems(2) by (simp add: row_sum_add_to_coeff)
  have v1: "v1 ! i = v ! i + (if i = J then w p q * x ! I else 0)" if "i < n" for i
    using that Cons.prems(3) J by (simp add: v1_def nth_list_update)
  have inv: "\<forall>i<n. v1 ! i + (if i = I then d1 else 0) + c i = row_sum n x r1 i"
  proof (intro allI impI)
    fix i assume i: "i < n"
    have h: "v ! i + (if i = I then double_I else 0) + c i = row_sum n x r i"
      using Cons.prems(4) i by simp
    have "v1 ! i + (if i = I then d1 else 0) + c i
        = (v ! i + (if i = I then double_I else 0) + c i)
          + (if i = I then w p q * x ! J else 0) + (if i = J then w p q * x ! I else 0)"
      unfolding v1 [OF i] d1_def by simp
    also have "\<dots> = row_sum n x r i
          + (if i = I then w p q * x ! J else 0) + (if i = J then w p q * x ! I else 0)"
      by (simp only: h)
    also have "\<dots> = row_sum n x r1 i"
      by (simp only: rs)
    finally show "v1 ! i + (if i = I then d1 else 0) + c i = row_sum n x r1 i" .
  qed
  have rest: "\<forall>(p, q, J)\<in>set cs. J < n"
    using Cons.prems(1) by simp
  show ?case
    using Cons.IH [OF rest Cons.prems(2) len inv]
    by (simp add: cpl v1_def d1_def r1_def)
qed

lemma matvec_step_correct:
  assumes cs: "\<forall>(p, q, J)\<in>set (cs I). J < n" and I: "I < n" and len: "length v = n"
    and len_d: "length d = n" and len_x: "length x = n"
    and inv: "\<forall>i<n. v ! i = row_sum n x r i + (if I \<le> i then d ! i * x ! i else 0)"
  shows "length (matvec_step w cs x I v) = n
    \<and> (\<forall>i<n. matvec_step w cs x I v ! i
          = row_sum n x (hamiltonian_step w cs d I r) i + (if Suc I \<le> i then d ! i * x ! i else 0))"
proof -
  define c where "c = (\<lambda>i. if Suc I \<le> i then - (d ! i * x ! i) else 0)"
  define r0 where "r0 = add_to_coeff r I I (d ! I)"
  have rs: "row_sum n x r0 i = row_sum n x r i + (if i = I then d ! I * x ! I else 0)" for i
    unfolding r0_def using I by (simp add: row_sum_add_to_coeff)
  have start: "\<forall>i<n. v ! i + (if i = I then 0 else 0) + c i = row_sum n x r0 i"
    using inv by (auto simp: rs c_def)
  obtain double_I' v' where f:
    "fold (\<lambda>(p, q, J) (double_I, v). (double_I + w p q * x ! J, v[J := v ! J + w p q * x ! I]))
       (cs I) (0, v) = (double_I', v')"
    by (cases "fold (\<lambda>(p, q, J) (double_I, v). (double_I + w p q * x ! J, v[J := v ! J + w p q * x ! I]))
       (cs I) (0, v)") auto
  have res: "length v' = n
      \<and> (\<forall>i<n. v' ! i + (if i = I then double_I' else 0) + c i
           = row_sum n x (hamiltonian_step w cs d I r) i)"
    using matvec_couplings [OF cs I len start, of w] f
    by (simp add: hamiltonian_step_def r0_def)
  have m: "matvec_step w cs x I v = v'[I := v' ! I + double_I']"
    by (simp add: matvec_step_def f)
  have "matvec_step w cs x I v ! i
      = row_sum n x (hamiltonian_step w cs d I r) i + (if Suc I \<le> i then d ! i * x ! i else 0)"
    if i: "i < n" for i
  proof -
    have "v' ! i + (if i = I then double_I' else 0) + c i
        = row_sum n x (hamiltonian_step w cs d I r) i"
      using res i by simp
    moreover have "matvec_step w cs x I v ! i = v' ! i + (if i = I then double_I' else 0)"
      using res i I by (simp add: m nth_list_update)
    ultimately show ?thesis
      by (simp add: c_def split: if_splits)
  qed
  then show ?thesis
    using res by (simp add: m)
qed

lemma matvec_fold:
  assumes cs: "\<forall>I<n. \<forall>(p, q, J)\<in>set (cs I). J < n"
    and len_d: "length d = n" and len_x: "length x = n" and k: "k \<le> n"
  shows "length (fold (matvec_step w cs x) [0..<k] (map2 (*) d x)) = n
    \<and> (\<forall>i<n. fold (matvec_step w cs x) [0..<k] (map2 (*) d x) ! i
          = row_sum n x (fold (hamiltonian_step w cs d) [0..<k] (Zero_matrix n n)) i
            + (if k \<le> i then d ! i * x ! i else 0))"
  using k
proof (induction k)
  case 0
  have "row_sum n x (Zero_matrix n n) i = 0" for i
    by (simp add: row_sum_def Zero_matrix_def)
  then show ?case
    using len_d len_x by simp
next
  case (Suc k)
  define v where "v = fold (matvec_step w cs x) [0..<k] (map2 (*) d x)"
  define r where "r = fold (hamiltonian_step w cs d) [0..<k] (Zero_matrix n n)"
  have k: "k < n"
    using Suc.prems by simp
  have len: "length v = n"
    and inv: "\<forall>i<n. v ! i = row_sum n x r i + (if k \<le> i then d ! i * x ! i else 0)"
    using Suc.IH k by (simp_all add: v_def r_def)
  have csk: "\<forall>(p, q, J)\<in>set (cs k). J < n"
    using cs k by simp
  have "length (matvec_step w cs x k v) = n
      \<and> (\<forall>i<n. matvec_step w cs x k v ! i
            = row_sum n x (hamiltonian_step w cs d k r) i + (if Suc k \<le> i then d ! i * x ! i else 0))"
    using csk k len len_d len_x inv by (rule matvec_step_correct)
  then show ?case
    by (simp add: v_def r_def)
qed

section \<open>The DOCI Hamiltonian builder: symmetry, diagonal, matrix-vector product\<close>

text \<open>
  The couplings of address \<open>I\<close> in the loops of the builder, and the vector that
  \<open>calculateDiagonal\<close> returns, with the ONV of each iteration made explicit.
\<close>

definition doci_couplings :: "FockSpace \<Rightarrow> nat \<Rightarrow> (nat \<times> nat \<times> nat) list" where
  "doci_couplings fs I = couplings fs (onv_seq fs I) (K fs) I"

definition diagonal_of :: "HamiltonianParameters \<Rightarrow> FockSpace \<Rightarrow> VectorX" where
  "diagonal_of ham_par fs =
     fold (\<lambda>I d. d[I := d ! I + diagonal_element ham_par fs (onv_seq fs I)])
       [0..<dim fs] (replicate (dim fs) 0)"

lemma length_diagonal_of: "length (diagonal_of ham_par fs) = dim fs"
proof -
  have "length (fold (\<lambda>I d. d[I := d ! I + diagonal_element ham_par fs (onv_seq fs I)]) xs d0)
      = length d0" for xs and d0 :: "real list"
    by (induction xs arbitrary: d0) simp_all
  then show ?thesis
    by (simp add: diagonal_of_def)
qed

lemma fold_traversal_fst:
  "fst (fold (\<lambda>I (acc, onv). (F I onv acc, if I < d - Suc 0 then G onv else onv)) [0..<d]
          (acc0, onv0))
    = fold (\<lambda>I acc. F I ((G ^^ I) onv0) acc) [0..<d] acc0"
  using fold_traversal [OF order_refl, of F d G acc0 onv0] by simp

lemma hamiltonian_step_eq:
  "hamiltonian_step w cs d =
     (\<lambda>I r. fold (\<lambda>(p, q, J) r. add_to_coeff (add_to_coeff r I J (w p q)) J I (w p q)) (cs I)
        (add_to_coeff r I I (d ! I)))"
  by (intro ext) (simp add: hamiltonian_step_def)

lemma matvec_step_eq:
  "matvec_step w cs x =
     (\<lambda>I v. case fold (\<lambda>(p, q, J) (double_I, v). (double_I + w p q * x ! J, v[J := v ! J + w p q * x ! I]))
             (cs I) (0, v) of
        (double_I, v') \<Rightarrow> v'[I := v' ! I + double_I])"
  by (intro ext) (simp add: matvec_step_def)

lemma DOCI_calculateDiagonal_eq:
  assumes "get_dim (hp_h ham_par) = K (fock_space doci)"
  shows "DOCI_calculateDiagonal doci ham_par = Inr (diagonal_of ham_par (fock_space doci))"
  using assms
  by (simp add: DOCI_calculateDiagonal_def Let_def fold_traversal_fst diagonal_of_def
      onv_seq_def)

lemma DOCI_constructHamiltonian_eq:
  assumes "get_dim (hp_h ham_par) = K (fock_space doci)"
  shows "DOCI_constructHamiltonian doci ham_par =
    Inr (fold (hamiltonian_step (\<lambda>p q. te_coeff (hp_g ham_par) p q p q)
                (doci_couplings (fock_space doci)) (diagonal_of ham_par (fock_space doci)))
           [0..<dim (fock_space doci)]
           (Zero_matrix (dim (fock_space doci)) (dim (fock_space doci))))"
  using assms
  by (simp add: DOCI_constructHamiltonian_def Let_def DOCI_calculateDiagonal_eq
      fold_traversal_fst annihilation_loop_fold hamiltonian_step_eq
      doci_couplings_def onv_seq_def)

lemma DOCI_matrixVectorProduct_eq:
  assumes "get_dim (hp_h ham_par) = K (fock_space doci)"
  shows "DOCI_matrixVectorProduct doci ham_par x d =
    Inr (fold (matvec_step (\<lambda>p q. te_coeff (hp_g ham_par) p q p q)
                (doci_couplings (fock_space doci)) x)
           [0..<dim (fock_space doci)] (map2 (*) d x))"
  using assms
  by (simp add: DOCI_matrixVectorProduct_def Let_def
      fold_traversal_fst annihilation_loop_fold matvec_step_eq
      doci_couplings_def onv_seq_def)

lemma FockSpace_ctor_well_formed:
  assumes "FockSpace_ctor k n = Inr fs" and "k \<le> 63" and "n \<le> 31" and "dim fs = k choose n"
  shows "well_formed fs \<and> K fs = k \<and> N fs = n"
proof -
  obtain d where d: "calculateDimension k n = Inr d"
    and fs: "fs = \<lparr>K = k, dim = d, N = n, vertex_weights = make_vertex_weights k n\<rparr>"
    using assms(1) by (auto simp: FockSpace_ctor_def split: sum.splits)
  have "n \<le> k"
  proof (rule ccontr)
    assume "\<not> n \<le> k"
    then have "binomial_coefficient (k mod 2 ^ 32) (n mod 2 ^ 32) = Inl domain_error"
      using assms(2,3) by (simp add: binomial_coefficient_def)
    then show False
      using d by (simp add: calculateDimension_def calculateDimension_with_def)
  qed
  then show ?thesis
    using assms fs by (simp add: well_formed_def)
qed

lemma doci_couplings_good:
  assumes wf: "well_formed fs" and I: "I < dim fs"
  shows "\<forall>(p, q, J)\<in>set (doci_couplings fs I). J < dim fs \<and> J \<noteq> I"
  unfolding doci_couplings_def
  by (rule couplings_good [OF wf onv_seq_valid [OF wf I]])

text \<open>
  Symmetry and diagonal. Let the Fock space be one that the constructor
  \<open>FockSpace(K, N)\<close> returns,
  with \<open>K \<le> 63\<close>, \<open>N \<le> 31\<close> and the exact dimension, and let the Hamiltonian
  parameters have \<open>K\<close> orbitals. Then \<open>constructHamiltonian\<close> and
  \<open>calculateDiagonal\<close> return without an exception, the matrix \<open>H\<close> they return is a
  \<open>dim\<close> by \<open>dim\<close> matrix that equals its transpose, and for every address \<open>I\<close> the
  diagonal coefficient \<open>H(I, I)\<close> is coefficient \<open>I\<close> of the vector returned by
  \<open>calculateDiagonal\<close>.
\<close>

theorem DOCI_hamiltonian_symmetric_diagonal:
  assumes "FockSpace_ctor k n = Inr fs" and "k \<le> 63" and "n \<le> 31" and "dim fs = k choose n"
    and "get_dim (hp_h ham_par) = k"
  shows "\<exists>H diagonal_vector.
    DOCI_constructHamiltonian \<lparr>fock_space = fs\<rparr> ham_par = Inr H
    \<and> DOCI_calculateDiagonal \<lparr>fock_space = fs\<rparr> ham_par = Inr diagonal_vector
    \<and> rows H = dim fs \<and> cols H = dim fs \<and> length diagonal_vector = dim fs
    \<and> transpose_mat H = H
    \<and> (\<forall>I<dim fs. coeff H I I = diagonal_vector ! I)"
proof -
  have wf: "well_formed fs" and k: "K fs = k"
    using FockSpace_ctor_well_formed [OF assms(1-4)] by simp_all
  define w where "w = (\<lambda>p q. te_coeff (hp_g ham_par) p q p q)"
  define H where "H = fold (hamiltonian_step w (doci_couplings fs) (diagonal_of ham_par fs))
    [0..<dim fs] (Zero_matrix (dim fs) (dim fs))"
  have dim: "get_dim (hp_h ham_par) = K (fock_space \<lparr>fock_space = fs\<rparr>)"
    using assms(5) k by simp
  have c: "DOCI_constructHamiltonian \<lparr>fock_space = fs\<rparr> ham_par = Inr H"
    using DOCI_constructHamiltonian_eq [OF dim] by (simp add: H_def w_def)
  have d: "DOCI_calculateDiagonal \<lparr>fock_space = fs\<rparr> ham_par = Inr (diagonal_of ham_par fs)"
    using DOCI_calculateDiagonal_eq [OF dim] by simp
  have sizes: "rows H = dim fs \<and> cols H = dim fs"
    unfolding H_def by (rule sizes_fold)
  have "symmetric H"
    unfolding H_def by (rule symmetric_fold)
  then have "coeff (transpose_mat H) = coeff H"
    by (intro ext) (simp add: symmetric_def transpose_mat_def)
  then have t: "transpose_mat H = H"
    using sizes by (intro MatrixX.equality) (simp_all add: transpose_mat_def)
  have "\<forall>I<dim fs. \<forall>(p, q, J)\<in>set (doci_couplings fs I). J \<noteq> I"
    using doci_couplings_good [OF wf] by fastforce
  then have "coeff H I I = (if I < dim fs then diagonal_of ham_par fs ! I else 0)" for I
    unfolding H_def by (rule diagonal_fold)
  then have "\<forall>I<dim fs. coeff H I I = diagonal_of ham_par fs ! I"
    by simp
  then show ?thesis
    using c d sizes t length_diagonal_of [of ham_par fs] by blast
qed

text \<open>
  Matrix-vector product. Let the Fock space be one that the constructor
  \<open>FockSpace(K, N)\<close> returns,
  with \<open>K \<le> 63\<close>, \<open>N \<le> 31\<close> and the exact dimension, let the Hamiltonian parameters
  have \<open>K\<close> orbitals, and let \<open>x\<close> be a vector of \<open>dim\<close> coefficients. Then
  \<open>matrixVectorProduct\<close>, called with the vector returned by \<open>calculateDiagonal\<close>,
  returns the product of the matrix returned by \<open>constructHamiltonian\<close> with \<open>x\<close>.
\<close>

theorem DOCI_matvec_agrees:
  assumes "FockSpace_ctor k n = Inr fs" and "k \<le> 63" and "n \<le> 31" and "dim fs = k choose n"
    and "get_dim (hp_h ham_par) = k" and "length x = dim fs"
  shows "\<exists>H diagonal_vector.
    DOCI_constructHamiltonian \<lparr>fock_space = fs\<rparr> ham_par = Inr H
    \<and> DOCI_calculateDiagonal \<lparr>fock_space = fs\<rparr> ham_par = Inr diagonal_vector
    \<and> DOCI_matrixVectorProduct \<lparr>fock_space = fs\<rparr> ham_par x diagonal_vector = Inr (mat_vec H x)"
proof -
  have wf: "well_formed fs" and k: "K fs = k"
    using FockSpace_ctor_well_formed [OF assms(1-4)] by simp_all
  define w where "w = (\<lambda>p q. te_coeff (hp_g ham_par) p q p q)"
  define d where "d = diagonal_of ham_par fs"
  define H where "H = fold (hamiltonian_step w (doci_couplings fs) d)
    [0..<dim fs] (Zero_matrix (dim fs) (dim fs))"
  define v where "v = fold (matvec_step w (doci_couplings fs) x) [0..<dim fs] (map2 (*) d x)"
  have dim: "get_dim (hp_h ham_par) = K (fock_space \<lparr>fock_space = fs\<rparr>)"
    using assms(5) k by simp
  have c: "DOCI_constructHamiltonian \<lparr>fock_space = fs\<rparr> ham_par = Inr H"
    using DOCI_constructHamiltonian_eq [OF dim] by (simp add: H_def w_def d_def)
  have dg: "DOCI_calculateDiagonal \<lparr>fock_space = fs\<rparr> ham_par = Inr d"
    using DOCI_calculateDiagonal_eq [OF dim] by (simp add: d_def)
  have m: "DOCI_matrixVectorProduct \<lparr>fock_space = fs\<rparr> ham_par x d = Inr v"
    using DOCI_matrixVectorProduct_eq [OF dim] by (simp add: v_def w_def)
  have sizes: "rows H = dim fs \<and> cols H = dim fs"
    unfolding H_def by (rule sizes_fold)
  have cs: "\<forall>I<dim fs. \<forall>(p, q, J)\<in>set (doci_couplings fs I). J < dim fs"
    using doci_couplings_good [OF wf] by fastforce
  have len_d: "length d = dim fs"
    by (simp add: d_def length_diagonal_of)
  have "length v = dim fs \<and> (\<forall>i<dim fs. v ! i = row_sum (dim fs) x H i
      + (if dim fs \<le> i then d ! i * x ! i else 0))"
    unfolding v_def H_def
    using cs len_d assms(6) order_refl by (rule matvec_fold)
  then have len_v: "length v = dim fs" and vi: "\<forall>i<dim fs. v ! i = row_sum (dim fs) x H i"
    by simp_all
  have "v = mat_vec H x"
    using len_v vi sizes by (intro nth_equalityI) (simp_all add: mat_vec_def row_sum_def)
  then show ?thesis
    using c dg m by blast
qed

subsection \<open>An example\<close>

text \<open>
  An example: the Fock space of 4 orbitals and 2 electron pairs, with Hamiltonian
  parameters of 4 orbitals.
\<close>

definition example_doci_parameters :: HamiltonianParameters where
  "example_doci_parameters =
     HamiltonianParameters_ctor
       \<lparr>rows = 4, cols = 4, coeff = (\<lambda>i j. if i = j then 1 else 0)\<rparr>
       \<lparr>rows = 4, cols = 4, coeff = (\<lambda>i j. real (i + 1))\<rparr>
       \<lparr>te_dim = 4, te_coeff = (\<lambda>p q r s. real (1 + p + 10 * q))\<rparr>
       \<lparr>rows = 4, cols = 4, coeff = (\<lambda>i j. if i = j then 1 else 0)\<rparr>"

lemma example_fock_space:
  "FockSpace_ctor 4 2 = Inr fock_space_4_2" "dim fock_space_4_2 = 4 choose 2"
  "get_dim (hp_h example_doci_parameters) = 4"
  by (simp_all add: FockSpace_ctor_def calculateDimension_4_2 fock_space_4_2_def
      example_doci_parameters_def HamiltonianParameters_ctor_def get_dim_def
      binomial_code fold_atLeastAtMost_nat.simps fact_numeral)

theorem DOCI_hamiltonian_symmetric_diagonal_witness:
  "FockSpace_ctor 4 2 = Inr fock_space_4_2
   \<and> dim fock_space_4_2 = 6
   \<and> get_dim (hp_h example_doci_parameters) = 4
   \<and> (\<exists>H diagonal_vector.
        DOCI_constructHamiltonian \<lparr>fock_space = fock_space_4_2\<rparr> example_doci_parameters = Inr H
        \<and> DOCI_calculateDiagonal \<lparr>fock_space = fock_space_4_2\<rparr> example_doci_parameters
            = Inr diagonal_vector
        \<and> rows H = 6 \<and> cols H = 6 \<and> length diagonal_vector = 6
        \<and> transpose_mat H = H
        \<and> coeff H 0 0 = diagonal_vector ! 0 \<and> coeff H 5 5 = diagonal_vector ! 5)"
proof -
  have d: "dim fock_space_4_2 = 6"
    by (simp add: fock_space_4_2_def)
  obtain H diagonal_vector where
    "DOCI_constructHamiltonian \<lparr>fock_space = fock_space_4_2\<rparr> example_doci_parameters = Inr H"
    "DOCI_calculateDiagonal \<lparr>fock_space = fock_space_4_2\<rparr> example_doci_parameters
      = Inr diagonal_vector"
    "rows H = 6" "cols H = 6" "length diagonal_vector = 6" "transpose_mat H = H"
    "\<forall>I<6. coeff H I I = diagonal_vector ! I"
    using DOCI_hamiltonian_symmetric_diagonal [where k = 4 and n = 2 and fs = fock_space_4_2
        and ham_par = example_doci_parameters] example_fock_space
    unfolding d by auto
  then show ?thesis
    using example_fock_space(1,3) d by auto
qed

theorem DOCI_matvec_agrees_witness:
  "FockSpace_ctor 4 2 = Inr fock_space_4_2
   \<and> dim fock_space_4_2 = 6
   \<and> get_dim (hp_h example_doci_parameters) = 4
   \<and> (\<exists>H diagonal_vector.
        DOCI_constructHamiltonian \<lparr>fock_space = fock_space_4_2\<rparr> example_doci_parameters = Inr H
        \<and> DOCI_calculateDiagonal \<lparr>fock_space = fock_space_4_2\<rparr> example_doci_parameters
            = Inr diagonal_vector
        \<and> DOCI_matrixVectorProduct \<lparr>fock_space = fock_space_4_2\<rparr> example_doci_parameters
              [1, 2, 3, 4, 5, 6] diagonal_vector
            = Inr (mat_vec H [1, 2, 3, 4, 5, 6]))"
proof -
  have d: "dim fock_space_4_2 = 6"
    by (simp add: fock_space_4_2_def)
  have "\<exists>H diagonal_vector.
        DOCI_constructHamiltonian \<lparr>fock_space = fock_space_4_2\<rparr> example_doci_parameters = Inr H
        \<and> DOCI_calculateDiagonal \<lparr>fock_space = fock_space_4_2\<rparr> example_doci_parameters
            = Inr diagonal_vector
        \<and> DOCI_matrixVectorProduct \<lparr>fock_space = fock_space_4_2\<rparr> example_doci_parameters
              [1, 2, 3, 4, 5, 6] diagonal_vector
            = Inr (mat_vec H [1, 2, 3, 4, 5, 6])"
    using DOCI_matvec_agrees [where k = 4 and n = 2 and fs = fock_space_4_2
        and ham_par = example_doci_parameters and x = "[1, 2, 3, 4, 5, 6]"] example_fock_space
    by (simp add: d)
  then show ?thesis
    using example_fock_space(1,3) d by blast
qed

section \<open>The DOCI Hamiltonian builder with 33 orbitals and 32 electron pairs\<close>

text \<open>
  The Fock space of 33 orbitals and 32 electron pairs, of dimension 33, as the
  constructor \<open>FockSpace(33, 32)\<close> returns it.
\<close>

definition fock_space_33_32 :: FockSpace where
  "fock_space_33_32 = \<lparr>K = 33, dim = 33, N = 32, vertex_weights = make_vertex_weights 33 32\<rparr>"

lemma fock_space_33_32_fields:
  "K fock_space_33_32 = 33" "dim fock_space_33_32 = 33" "N fock_space_33_32 = 32"
  by (simp_all add: fock_space_33_32_def)

lemma choose_33_32: "(33 choose 32 :: nat) = 33"
  using binomial_Suc_n [of 32] by simp

lemma calculateDimension_33_32: "calculateDimension 33 32 = Inr 33"
  by (simp add: calculateDimension_def calculateDimension_with_def binomial_coefficient_def
      double_of_nat_def convert_def choose_33_32)

lemma FockSpace_ctor_33_32: "FockSpace_ctor 33 32 = Inr fock_space_33_32"
  by (simp add: FockSpace_ctor_def calculateDimension_33_32 fock_space_33_32_def)

lemma weights_33_32:
  assumes "p \<le> 33" and "m \<le> 32"
  shows "get_vertex_weights fock_space_33_32 p m = weight_spec 33 32 p m"
  using vertex_weights_binomial [of 32 33 p m] assms
  by (simp add: get_vertex_weights_def fock_space_33_32_def)

lemma weight_diagonal_33_32:
  assumes "m \<le> 32"
  shows "get_vertex_weights fock_space_33_32 m m = 1"
  using assms by (simp add: weights_33_32 weight_spec_def)

lemma weight_above_33_32:
  assumes "m < 32"
  shows "get_vertex_weights fock_space_33_32 m (Suc m) = 0"
  using assms by (simp add: weights_33_32 weight_spec_def)

text \<open>
  \<open>calculateRepresentation(0)\<close> skips orbital 32, whose weight is 1, and sets the bits
  of the orbitals 31 to 0, whose weights are 0. Bit 31 is set with \<open>(1) << 31\<close>, a
  shift of the \<open>int\<close> literal 1: its sign extension sets the bits 32 to 63 as well.
\<close>

lemma take_phase_zero_weights:
  assumes "\<forall>p'<m. get_vertex_weights fs p' (Suc p') = 0" and "m \<le> 31" and "1 \<le> m"
  shows "calculateRepresentation_loop fs m 0 rep m = rep OR mask m"
  using assms
proof (induction m arbitrary: rep)
  case 0
  then show ?case by simp
next
  case (Suc p')
  have w: "get_vertex_weights fs p' (Suc p') = 0"
    using Suc.prems by simp
  have s: "int_one_shifted p' = 2 ^ p'"
    using Suc.prems by (intro int_one_shifted_eq) simp
  show ?case
  proof (cases "p' = 0")
    case True
    then show ?thesis
      using w s by (simp add: mask_Suc_exp)
  next
    case False
    then have "calculateRepresentation_loop fs p' 0 (rep OR 2 ^ p') p' = (rep OR 2 ^ p') OR mask p'"
      using Suc.prems by (intro Suc.IH) auto
    then show ?thesis
      using False w s by (simp add: mask_Suc_exp ac_simps)
  qed
qed

lemma int_one_shifted_31: "int_one_shifted 31 = 0xFFFFFFFF80000000"
  by (simp add: int_one_shifted_def)

lemma calculateRepresentation_33_32:
  "calculateRepresentation fock_space_33_32 0 = 0xFFFFFFFFFFFFFFFF"
proof -
  have "calculateRepresentation fock_space_33_32 0
      = calculateRepresentation_loop fock_space_33_32 33 0 0 32"
    by (simp add: calculateRepresentation_def fock_space_33_32_fields)
  also have "\<dots> = calculateRepresentation_loop fock_space_33_32 32 0 0 32"
    using weight_diagonal_33_32 [of 32] by (simp add: calculateRepresentation_loop_numeral)
  also have "\<dots> = calculateRepresentation_loop fock_space_33_32 31 0 (0 OR int_one_shifted 31) 31"
    using weight_above_33_32 [of 31] by (simp add: calculateRepresentation_loop_numeral)
  also have "\<dots> = (0 OR int_one_shifted 31) OR mask 31"
    using weight_above_33_32 by (intro take_phase_zero_weights) auto
  also have "\<dots> = 0xFFFFFFFFFFFFFFFF"
    by (simp add: int_one_shifted_31 mask_numeral)
  finally show ?thesis .
qed

lemma occupation_indices_makeONV_33_32:
  "occupation_indices (makeONV fock_space_33_32 0) = [0..<64]"
proof -
  have "occupied (mask 64) [0..<64]"
    by (rule occupied_mask) simp
  moreover have "(mask 64 :: size_t) = 0xFFFFFFFFFFFFFFFF"
    by (simp add: mask_numeral)
  ultimately have "updateOccupationIndices 0xFFFFFFFFFFFFFFFF = [0..<64]"
    using updateOccupationIndices_occupied [of "mask 64" "[0..<64]"] by simp
  then show ?thesis
    by (simp add: makeONV_def ONV_ctor_def calculateRepresentation_33_32)
qed

lemma ulongNextPermutation_all_ones:
  "ulongNextPermutation 0xFFFFFFFFFFFFFFFF = 0x7FFFFFFFFFFFFFFF"
proof -
  have ctz: "builtin_ctzl 0xFFFFFFFFFFFFFFFF = 0"
    by (simp add: builtin_ctzl_def ctz_nat.simps)
  show ?thesis
    by (simp add: ulongNextPermutation_def Let_def ctz)
qed

text \<open>
  The ONV that the loops over the addresses hold at address 1: \<open>makeONV(0)\<close>, advanced
  once by \<open>setNextONV\<close>. Its first 32 occupation indices are again the orbitals 0 to 31.
\<close>

definition onv_33_32_1 :: ONV where
  "onv_33_32_1 = setNextONV fock_space_33_32 (makeONV fock_space_33_32 0)"

lemma occupation_indices_onv_33_32_1:
  "occupation_indices onv_33_32_1 = [0..<63]"
proof -
  have "occupied (mask 63) [0..<63]"
    by (rule occupied_mask) simp
  moreover have "(mask 63 :: size_t) = 0x7FFFFFFFFFFFFFFF"
    by (simp add: mask_numeral)
  ultimately have "updateOccupationIndices 0x7FFFFFFFFFFFFFFF = [0..<63]"
    using updateOccupationIndices_occupied [of "mask 63" "[0..<63]"] by simp
  then show ?thesis
    by (simp add: onv_33_32_1_def setNextONV_def set_representation_def makeONV_def ONV_ctor_def
        calculateRepresentation_33_32 ulongNextPermutation_all_ones)
qed

lemma get_occupation_index_onv_33_32_1:
  assumes "e < 63"
  shows "get_occupation_index onv_33_32_1 e = e"
  using assms by (simp add: get_occupation_index_def occupation_indices_onv_33_32_1)

lemma shift_33_32:
  assumes "e \<le> 32"
  shows "shiftUntilNextUnoccupiedOrbital 1 fock_space_33_32 onv_33_32_1 (a, e, e)
    = (a + of_nat (32 - e), 32, 32)"
  using assms
proof (induction "32 - e" arbitrary: a e)
  case 0
  then have e: "e = 32" by simp
  show ?case
    unfolding e by (subst shiftUntilNextUnoccupiedOrbital.simps) (simp add: fock_space_33_32_fields)
next
  case (Suc n)
  then have e: "e < 32" and n: "n = 32 - Suc e"
    by simp_all
  have step: "shiftUntilNextUnoccupiedOrbital 1 fock_space_33_32 onv_33_32_1 (a, e, e)
      = shiftUntilNextUnoccupiedOrbital 1 fock_space_33_32 onv_33_32_1 (a + 1, Suc e, Suc e)"
    using e weight_diagonal_33_32 [of e] weight_above_33_32 [of e]
    by (subst shiftUntilNextUnoccupiedOrbital.simps)
      (simp add: get_occupation_index_onv_33_32_1 fock_space_33_32_fields)
  have "shiftUntilNextUnoccupiedOrbital 1 fock_space_33_32 onv_33_32_1 (a + 1, Suc e, Suc e)
      = (a + 1 + of_nat (32 - Suc e), 32, 32)"
    using e by (intro Suc.hyps(1) [OF n]) simp
  moreover have "a + 1 + of_nat (32 - Suc e) = a + of_nat (32 - e)"
    using e by (simp add: Suc_diff_Suc)
  ultimately show ?case
    using step by simp
qed

lemma creation_trace_33_32:
  "creation_trace fock_space_33_32 onv_33_32_1 33 (a, 32, 32) = [(32, unat (a + 1))]"
proof -
  have s: "shiftUntilNextUnoccupiedOrbital 1 fock_space_33_32 onv_33_32_1 (a, 33, 32) = (a, 33, 32)"
    by (subst shiftUntilNextUnoccupiedOrbital.simps) (simp add: fock_space_33_32_fields)
  have "creation_trace fock_space_33_32 onv_33_32_1 33 (a, 33, 32) = []"
    by (subst creation_trace.simps) simp
  then show ?thesis
    using s weight_diagonal_33_32 [of 32]
    by (subst creation_trace.simps) simp
qed

lemma couplings_of_33_32:
  assumes "e1 < 32"
  shows "couplings_of fock_space_33_32 onv_33_32_1 33 (Suc 0) e1 = [(e1, 32, 33 - e1)]"
proof -
  have "shiftUntilNextUnoccupiedOrbital 1 fock_space_33_32 onv_33_32_1 (1, Suc e1, Suc e1)
      = (1 + of_nat (32 - Suc e1), 32, 32)"
    using assms by (intro shift_33_32) simp
  moreover have "unat ((1 :: size_t) + of_nat (32 - Suc e1) + 1) = 33 - e1"
  proof -
    have "(1 :: size_t) + of_nat (32 - Suc e1) + 1 = of_nat (33 - e1)"
      using assms by (simp add: Suc_diff_Suc of_nat_diff)
    moreover have "unat (of_nat (33 - e1) :: size_t) = 33 - e1"
      by (simp add: unsigned_of_nat take_bit_nat_eq_self)
    ultimately show ?thesis
      by simp
  qed
  ultimately show ?thesis
    using assms weight_above_33_32 [of e1]
    by (simp add: couplings_of_def Let_def get_occupation_index_onv_33_32_1 creation_trace_33_32)
qed

lemma concat_map_singleton: "concat (map (\<lambda>x. [f x]) xs) = map f xs"
  by (induction xs) simp_all

lemma couplings_33_32:
  "couplings fock_space_33_32 onv_33_32_1 33 (Suc 0) = map (\<lambda>e1. (e1, 32, 33 - e1)) [0..<32]"
proof -
  have "map (couplings_of fock_space_33_32 onv_33_32_1 33 (Suc 0)) [0..<32]
      = map (\<lambda>e1. [(e1, 32, 33 - e1)]) [0..<32]"
    by (rule map_cong) (simp_all add: couplings_of_33_32)
  then show ?thesis
    unfolding couplings_def fock_space_33_32_fields by (simp only: concat_map_singleton)
qed

lemma fold_snoc_map: "fold (\<lambda>x acc. acc @ [f x]) xs acc = acc @ map f xs"
  by (induction xs arbitrary: acc) simp_all

text \<open>
  C2. With 33 orbitals and 32 electron pairs the Fock space has dimension 33, and
  \<open>x\<close> and the result of \<open>matrixVectorProduct\<close> have the 33 coefficients 0 to 32.
  \<open>makeONV(0)\<close> has all 64 bits set instead of the bits 0 to 31, and at address 1 the
  loop over the couplings, which \<open>matrixVectorProduct\<close> and \<open>constructHamiltonian\<close>
  share, visits the addresses \<open>J = 33, 32, \<dots>, 2\<close>: \<open>matrixVectorProduct\<close> reads
  \<open>x(33)\<close> and writes \<open>matvec(33)\<close>, outside the vectors.
\<close>

theorem DOCI_matvec_K33_N32:
  "FockSpace_ctor 33 32 = Inr fock_space_33_32
   \<and> dim fock_space_33_32 = 33
   \<and> unsigned_representation (makeONV fock_space_33_32 0) = 0xFFFFFFFFFFFFFFFF
   \<and> annihilation_loop (\<lambda>p q J Js. Js @ [J]) fock_space_33_32
        (setNextONV fock_space_33_32 (makeONV fock_space_33_32 0)) 33 1 []
      = map (\<lambda>e1. 33 - e1) [0..<32]"
proof -
  have "annihilation_loop (\<lambda>p q J Js. Js @ [J]) fock_space_33_32 onv_33_32_1 33 1 []
      = map (\<lambda>e1. 33 - e1) [0..<32]"
    by (simp add: annihilation_loop_fold couplings_33_32 case_prod_unfold fold_snoc_map comp_def)
  moreover have "unsigned_representation (makeONV fock_space_33_32 0) = 0xFFFFFFFFFFFFFFFF"
    by (simp add: makeONV_def ONV_ctor_def calculateRepresentation_33_32)
  ultimately show ?thesis
    using FockSpace_ctor_33_32 by (simp add: onv_33_32_1_def fock_space_33_32_fields)
qed

text \<open>
  The iteration of address \<open>I\<close> of \<open>constructHamiltonian\<close> changes coefficients of
  row \<open>I\<close> and of column \<open>I\<close> only, and adds to the coefficient \<open>(I, J0)\<close> the
  integrals of the couplings of \<open>I\<close> with \<open>J0\<close>.
\<close>

lemma couplings_elsewhere:
  assumes "i \<noteq> I" and "j \<noteq> I"
  shows "coeff (fold (\<lambda>(p, q, J) r. add_to_coeff (add_to_coeff r I J (w p q)) J I (w p q)) cs r) i j
    = coeff r i j"
proof (induction cs arbitrary: r)
  case Nil
  then show ?case by simp
next
  case (Cons c cs)
  obtain p q J where c: "c = (p, q, J)"
    by (cases c) auto
  have "coeff (add_to_coeff (add_to_coeff r I J (w p q)) J I (w p q)) i j = coeff r i j"
    using assms by (simp add: coeff_add_to_coeff)
  then show ?case
    using Cons.IH by (simp add: c)
qed

lemma hamiltonian_step_elsewhere:
  assumes "i \<noteq> I" and "j \<noteq> I"
  shows "coeff (hamiltonian_step w cs d I r) i j = coeff r i j"
proof -
  have "coeff (hamiltonian_step w cs d I r) i j = coeff (add_to_coeff r I I (d ! I)) i j"
    unfolding hamiltonian_step_def by (rule couplings_elsewhere [OF assms])
  also have "\<dots> = coeff r i j"
    using assms by (simp add: coeff_add_to_coeff)
  finally show ?thesis .
qed

lemma fold_hamiltonian_step_elsewhere:
  assumes "\<forall>I\<in>set Is. I \<noteq> i \<and> I \<noteq> j"
  shows "coeff (fold (hamiltonian_step w cs d) Is r) i j = coeff r i j"
  using assms
proof (induction Is arbitrary: r)
  case Nil
  then show ?case by simp
next
  case (Cons I Is)
  have "coeff (hamiltonian_step w cs d I r) i j = coeff r i j"
    using Cons.prems by (intro hamiltonian_step_elsewhere) auto
  then show ?case
    using Cons by simp
qed

lemma couplings_row:
  assumes "J0 \<noteq> I"
  shows "coeff (fold (\<lambda>(p, q, J) r. add_to_coeff (add_to_coeff r I J (w p q)) J I (w p q)) cs r) I J0
    = coeff r I J0 + sum_list (map (\<lambda>(p, q, J). if J = J0 then w p q else 0) cs)"
proof (induction cs arbitrary: r)
  case Nil
  then show ?case by simp
next
  case (Cons c cs)
  obtain p q J where c: "c = (p, q, J)"
    by (cases c) auto
  have "coeff (add_to_coeff (add_to_coeff r I J (w p q)) J I (w p q)) I J0
      = coeff r I J0 + (if J = J0 then w p q else 0)"
  proof (cases "J = J0")
    case True
    then show ?thesis
      using assms by (simp add: coeff_add_to_coeff)
  next
    case False
    then have "J0 \<noteq> J"
      by simp
    then show ?thesis
      using assms False by (simp add: coeff_add_to_coeff)
  qed
  then show ?case
    using Cons.IH by (simp add: c)
qed

lemma hamiltonian_step_row:
  assumes "J0 \<noteq> I"
  shows "coeff (hamiltonian_step w cs d I r) I J0
    = coeff r I J0 + sum_list (map (\<lambda>(p, q, J). if J = J0 then w p q else 0) (cs I))"
proof -
  have "coeff (add_to_coeff r I I (d ! I)) I J0 = coeff r I J0"
    using assms by (simp add: coeff_add_to_coeff)
  then show ?thesis
    unfolding hamiltonian_step_def couplings_row [OF assms] by simp
qed

text \<open>
  Hamiltonian parameters of 33 orbitals, with all two-electron integrals equal to 1.
\<close>

definition parameters_33 :: HamiltonianParameters where
  "parameters_33 =
     HamiltonianParameters_ctor
       \<lparr>rows = 33, cols = 33, coeff = (\<lambda>i j. if i = j then 1 else 0)\<rparr>
       \<lparr>rows = 33, cols = 33, coeff = (\<lambda>i j. if i = j then 1 else 0)\<rparr>
       \<lparr>te_dim = 33, te_coeff = (\<lambda>p q r s. 1)\<rparr>
       \<lparr>rows = 33, cols = 33, coeff = (\<lambda>i j. if i = j then 1 else 0)\<rparr>"

lemma doci_couplings_33_32:
  "doci_couplings fock_space_33_32 (Suc 0) = map (\<lambda>e1. (e1, 32, 33 - e1)) [0..<32]"
  using couplings_33_32
  by (simp add: doci_couplings_def onv_seq_def onv_33_32_1_def fock_space_33_32_fields)

lemma sum_list_zero:
  assumes "\<forall>x\<in>set xs. f x = (0 :: real)"
  shows "sum_list (map f xs) = 0"
  using assms by (induction xs) simp_all

lemma couplings_to_33:
  "sum_list (map (\<lambda>(p, q, J). if J = 33 then (1 :: real) else 0)
     (map (\<lambda>e1. (e1, 32, 33 - e1)) [0..<32])) = 1"
proof -
  have "[0..<32] = 0 # [1..<32]"
    by (simp add: upt_conv_Cons)
  moreover have "sum_list (map (\<lambda>e1. if 33 - e1 = 33 then (1 :: real) else 0) [1..<32]) = 0"
    by (rule sum_list_zero) auto
  ultimately show ?thesis
    by (simp add: comp_def)
qed

text \<open>
  C3. With 33 orbitals and 32 electron pairs the Fock space has dimension 33, and
  the matrix of \<open>constructHamiltonian\<close> has the rows and columns 0 to 32.
  \<open>makeONV(0)\<close> has all 64 bits set instead of the bits 0 to 31, and at address 1
  \<open>constructHamiltonian\<close> adds the integral of the orbitals 0 and 32 to the coefficient
  \<open>(1, 33)\<close>, outside the matrix.
\<close>

theorem DOCI_hamiltonian_K33_N32:
  "FockSpace_ctor 33 32 = Inr fock_space_33_32
   \<and> unsigned_representation (makeONV fock_space_33_32 0) = 0xFFFFFFFFFFFFFFFF
   \<and> (\<exists>H. DOCI_constructHamiltonian \<lparr>fock_space = fock_space_33_32\<rparr> parameters_33 = Inr H
         \<and> rows H = 33 \<and> cols H = 33 \<and> coeff H 1 33 = 1)"
proof -
  define w :: "nat \<Rightarrow> nat \<Rightarrow> real" where "w = (\<lambda>p q. 1)"
  define d where "d = diagonal_of parameters_33 fock_space_33_32"
  define step where "step = hamiltonian_step w (doci_couplings fock_space_33_32) d"
  define H where "H = fold step [0..<33] (Zero_matrix 33 33)"
  have dim: "get_dim (hp_h parameters_33) = K (fock_space \<lparr>fock_space = fock_space_33_32\<rparr>)"
    by (simp add: parameters_33_def HamiltonianParameters_ctor_def get_dim_def
        fock_space_33_32_fields)
  have g: "(\<lambda>p q. te_coeff (hp_g parameters_33) p q p q) = w"
    by (simp add: parameters_33_def HamiltonianParameters_ctor_def w_def)
  have c: "DOCI_constructHamiltonian \<lparr>fock_space = fock_space_33_32\<rparr> parameters_33 = Inr H"
    using DOCI_constructHamiltonian_eq [OF dim]
    by (simp add: H_def step_def d_def g fock_space_33_32_fields)
  have sizes: "rows H = 33 \<and> cols H = 33"
    unfolding H_def step_def by (rule sizes_fold)
  have split: "[0..<33] = [0, Suc 0] @ [2..<33]"
    by (simp add: upt_conv_Cons)
  have H: "H = fold step [2..<33] (step (Suc 0) (step 0 (Zero_matrix 33 33)))"
    unfolding H_def split by simp
  have "coeff H (Suc 0) 33 = coeff (step (Suc 0) (step 0 (Zero_matrix 33 33))) (Suc 0) 33"
    unfolding H step_def by (rule fold_hamiltonian_step_elsewhere) auto
  also have "\<dots> = coeff (step 0 (Zero_matrix 33 33)) (Suc 0) 33
      + sum_list (map (\<lambda>(p, q, J). if J = 33 then w p q else 0)
          (doci_couplings fock_space_33_32 (Suc 0)))"
    unfolding step_def by (rule hamiltonian_step_row) simp
  also have "coeff (step 0 (Zero_matrix 33 33)) (Suc 0) 33 = coeff (Zero_matrix 33 33) (Suc 0) 33"
    unfolding step_def by (rule hamiltonian_step_elsewhere) simp_all
  also have "\<dots> = 0"
    by (simp add: Zero_matrix_def)
  also have "sum_list (map (\<lambda>(p, q, J). if J = 33 then w p q else 0)
          (doci_couplings fock_space_33_32 (Suc 0))) = 1"
    unfolding doci_couplings_33_32 w_def by (rule couplings_to_33)
  finally have "coeff H 1 33 = 1"
    by simp
  moreover have "unsigned_representation (makeONV fock_space_33_32 0) = 0xFFFFFFFFFFFFFFFF"
    by (simp add: makeONV_def ONV_ctor_def calculateRepresentation_33_32)
  ultimately show ?thesis
    using FockSpace_ctor_33_32 c sizes by blast
qed

end
